theory Spec2Isabelle
  imports Main "HOL-Library.Multiset" "HOL-Library.Char_ord" "HOL-Library.List_Lexorder"
    "HOL-Library.Product_Lexorder"
begin

section \<open>The slim hierarchy builder of \<open>api/options_api.py\<close>\<close>

text \<open>
  This theory embeds \<open>get_cell_tree\<close> (lines 138 to 242 of \<open>src/api/options_api.py\<close>).
  The catalog returned by \<open>_fetch_biosample_types\<close> is the input of the model.

  Strings are \<open>string\<close>; the string operations of Python that the function uses
  (\<open>str.strip\<close>, \<open>str.lower\<close>, \<open>str.casefold\<close>) are modelled on ASCII text, where
  \<open>casefold\<close> and \<open>lower\<close> agree. Strings compare as Python compares them: code point by
  code point, a proper prefix first (\<open>List_Lexorder\<close> over \<open>Char_ord\<close>); sort keys that are
  tuples compare lexicographically (\<open>Product_Lexorder\<close>).
\<close>

subsection \<open>Strings\<close>

definition is_space :: "char \<Rightarrow> bool" where
  \<comment> \<open>the ASCII characters for which \<open>str.isspace\<close> holds: TAB to CR, FS to US, SPACE\<close>
  "is_space c = (let n = (of_char c :: nat) in (9 \<le> n \<and> n \<le> 13) \<or> (28 \<le> n \<and> n \<le> 32))"

definition strip :: "string \<Rightarrow> string" where
  "strip s = rev (dropWhile is_space (rev (dropWhile is_space s)))"

definition lower_char :: "char \<Rightarrow> char" where
  "lower_char c =
     (case map_of (zip ''ABCDEFGHIJKLMNOPQRSTUVWXYZ'' ''abcdefghijklmnopqrstuvwxyz'') c of
        Some d \<Rightarrow> d
      | None \<Rightarrow> c)"

definition lower :: "string \<Rightarrow> string" where
  "lower s = map lower_char s"

definition casefold :: "string \<Rightarrow> string" where
  "casefold s = map lower_char s"

subsection \<open>The term catalog loader (lines 146 to 158)\<close>

text \<open>
  A raw catalog record is a JSON object; \<open>b.get(k)\<close> is \<open>None\<close> where the key is absent.
\<close>

record biosample =
  classification :: "string option"
  raw_term_name :: "string option"
  raw_cell_slims :: "string list option"

record enc_term =
  term_name :: string
  cell_slims :: "string list"

definition allowed_classes :: "string set" where
  "allowed_classes = {''primary cell'', ''in vitro differentiated cells'', ''cell line'', ''cell''}"

definition or_else :: "'a list option \<Rightarrow> 'a list" where
  \<comment> \<open>\<open>b.get(k) or []\<close> and \<open>b.get(k) or ""\<close>: \<open>None\<close> and the empty value both give the empty value\<close>
  "or_else v = (case v of None \<Rightarrow> [] | Some x \<Rightarrow> x)"

fun load_terms :: "biosample list \<Rightarrow> enc_term list" where
  "load_terms [] = []"
| "load_terms (b # bios) =
     (let cls = lower (strip (or_else (classification b))) in
      if cls \<noteq> [] \<and> cls \<notin> allowed_classes then load_terms bios
      else (case raw_term_name b of
              None \<Rightarrow> load_terms bios
            | Some name \<Rightarrow>
                if name = [] then load_terms bios
                else \<lparr>term_name = name, cell_slims = or_else (raw_cell_slims b)\<rparr> # load_terms bios))"

text \<open>The exclusion rule in the words of the specification, for comparison with the loop.\<close>

definition spec_excluded :: "biosample \<Rightarrow> bool" where
  "spec_excluded b =
     ((let c = lower (strip (or_else (classification b))) in c \<noteq> [] \<and> c \<notin> allowed_classes)
      \<or> raw_term_name b = None \<or> raw_term_name b = Some [])"

definition to_term :: "biosample \<Rightarrow> enc_term" where
  "to_term b = \<lparr>term_name = or_else (raw_term_name b), cell_slims = or_else (raw_cell_slims b)\<rparr>"

subsection \<open>Python sets, and the order in which a set is iterated\<close>

text \<open>
  A Python \<open>set\<close> of strings is modelled by the list of its elements without repetition,
  in order of insertion. Python does not iterate a set in that order: the order depends on
  the hashes of the elements, which change from one interpreter process to the next. The
  model therefore takes the iteration order as a parameter \<open>enum\<close>: \<open>enum s\<close> is the order
  in which the set \<open>s\<close> is iterated. All that is known of it is \<open>iteration_order enum\<close>:
  iterating yields every element once.
\<close>

type_synonym iteration = "string list \<Rightarrow> string list"

definition iteration_order :: "iteration \<Rightarrow> bool" where
  "iteration_order enum = (\<forall>s. mset (enum s) = mset s)"

definition set_add :: "'a \<Rightarrow> 'a list \<Rightarrow> 'a list" where
  \<comment> \<open>\<open>s.add(x)\<close>\<close>
  "set_add x s = (if x \<in> set s then s else s @ [x])"

definition set_update :: "'a list \<Rightarrow> 'a list \<Rightarrow> 'a list" where
  \<comment> \<open>\<open>s.update(xs)\<close>\<close>
  "set_update s xs = fold set_add xs s"

definition set_of :: "'a list \<Rightarrow> 'a list" where
  \<comment> \<open>\<open>set(xs)\<close>\<close>
  "set_of xs = set_update [] xs"

definition set_discard :: "'a \<Rightarrow> 'a list \<Rightarrow> 'a list" where
  \<comment> \<open>\<open>s.discard(x)\<close>\<close>
  "set_discard x s = removeAll x s"

definition proper_subset :: "'a list \<Rightarrow> 'a list \<Rightarrow> bool" where
  \<comment> \<open>\<open>s < t\<close> on sets; \<open>s > t\<close> is \<open>proper_subset t s\<close>\<close>
  "proper_subset s t = (set s \<subset> set t)"

definition sorted_set :: "iteration \<Rightarrow> (string \<Rightarrow> 'k::linorder) \<Rightarrow> string list \<Rightarrow> string list" where
  \<comment> \<open>\<open>sorted(s, key=key)\<close> for a set \<open>s\<close>: a stable sort of the elements as iterated\<close>
  "sorted_set enum key s = sort_key key (enum s)"

subsection \<open>The slim membership index (lines 160 to 168)\<close>

text \<open>
  A \<open>dict\<close> keeps its keys in order of insertion; it is modelled by an association list
  with one entry for each key.
\<close>

type_synonym slim_index = "(string \<times> string list) list"

fun setdefault_add :: "string \<Rightarrow> string \<Rightarrow> slim_index \<Rightarrow> slim_index" where
  \<comment> \<open>\<open>slim_members.setdefault(slim, set()).add(name)\<close>\<close>
  "setdefault_add slim name [] = [(slim, set_add name [])]"
| "setdefault_add slim name ((k, v) # d) =
     (if k = slim then (k, set_add name v) # d else (k, v) # setdefault_add slim name d)"

definition slim_buckets :: "enc_term list \<Rightarrow> slim_index" where
  "slim_buckets enc_terms =
     (let d = fold (\<lambda>t d. fold (\<lambda>slim d. setdefault_add slim (term_name t) d) (cell_slims t) d)
                enc_terms []
      in [(k, v) \<leftarrow> d. v \<noteq> []])"

definition members_of :: "slim_index \<Rightarrow> string \<Rightarrow> string list" where
  \<comment> \<open>\<open>slim_members[s]\<close>. The source looks up only keys of \<open>slim_members\<close> (elements of
      \<open>slims\<close>, \<open>cand\<close> and \<open>minimal\<close>), where the lookup cannot raise.\<close>
  "members_of slim_members s = (case map_of slim_members s of Some v \<Rightarrow> v | None \<Rightarrow> [])"

definition sizes :: "slim_index \<Rightarrow> string \<Rightarrow> nat" where
  "sizes slim_members s = length (members_of slim_members s)"

subsection \<open>The partial-order reconstructor (lines 169 to 184)\<close>

definition candidates :: "slim_index \<Rightarrow> string \<Rightarrow> string list" where
  "candidates slim_members a =
     [b \<leftarrow> map fst slim_members.
        a \<noteq> b \<and> proper_subset (members_of slim_members a) (members_of slim_members b)]"

definition minimal_of :: "slim_index \<Rightarrow> string list \<Rightarrow> string list" where
  "minimal_of slim_members cand =
     fold (\<lambda>x minimal.
        fold (\<lambda>y minimal.
           if x \<noteq> y \<and> proper_subset (members_of slim_members y) (members_of slim_members x)
           then set_discard x minimal else minimal) cand minimal)
       cand (set_of cand)"

definition parent_key :: "slim_index \<Rightarrow> string \<Rightarrow> nat \<times> string" where
  \<comment> \<open>\<open>lambda s: (sizes[s], s.casefold())\<close>\<close>
  "parent_key slim_members s = (sizes slim_members s, casefold s)"

definition choose_parent :: "iteration \<Rightarrow> slim_index \<Rightarrow> string \<Rightarrow> string option" where
  \<comment> \<open>the body of the loop over \<open>slims\<close>: the value of \<open>parents[a]\<close> after the loop. The
      sorted list of a non-empty set is not empty, so \<open>[0]\<close> does not raise.\<close>
  "choose_parent enum slim_members a =
     (let cand = candidates slim_members a in
      if cand = [] then None
      else
        let minimal = minimal_of slim_members cand in
        if minimal = [] then None
        else (case sorted_set enum (parent_key slim_members) minimal of
                [] \<Rightarrow> None
              | parent # _ \<Rightarrow> Some parent))"

definition parents_of :: "iteration \<Rightarrow> slim_index \<Rightarrow> (string \<times> string option) list" where
  \<comment> \<open>the \<open>dict\<close> \<open>parents\<close>, its keys in the order of \<open>slims\<close>\<close>
  "parents_of enum slim_members =
     map (\<lambda>a. (a, choose_parent enum slim_members a)) (map fst slim_members)"

definition parents_get :: "(string \<times> string option) list \<Rightarrow> string \<Rightarrow> string option" where
  \<comment> \<open>\<open>parents.get(s)\<close>: \<open>None\<close> for an absent key and for a key without parent\<close>
  "parents_get parents s = (case map_of parents s of None \<Rightarrow> None | Some p \<Rightarrow> p)"

subsection \<open>The tree assembler (lines 186 to 210)\<close>

record node =
  node_id :: string
  label :: string
  children :: "string list"
  members :: "string list"

type_synonym nodes = "(string \<times> node) list"

definition ensure_node :: "iteration \<Rightarrow> slim_index \<Rightarrow> string \<Rightarrow> nodes \<Rightarrow> nodes" where
  "ensure_node enum slim_members s nodes =
     (if s \<in> fst ` set nodes then nodes
      else nodes @ [(s, \<lparr>node_id = ''SLIM::'' @ s, label = s, children = [],
                          members = sorted_set enum casefold (members_of slim_members s)\<rparr>)])"

definition build_nodes :: "iteration \<Rightarrow> slim_index \<Rightarrow> nodes" where
  \<comment> \<open>\<open>for s in slims: ensure_node(s)\<close>\<close>
  "build_nodes enum slim_members = fold (ensure_node enum slim_members) (map fst slim_members) []"

text \<open>
  From here on a lookup of a key that a \<open>dict\<close> does not have is a result of its own:
  \<open>None\<close> stands for the \<open>KeyError\<close> of the source.
\<close>

fun append_child :: "string \<Rightarrow> string \<Rightarrow> nodes \<Rightarrow> nodes option" where
  \<comment> \<open>\<open>nodes[parent]["children"].append(child)\<close>\<close>
  "append_child parent child [] = None"
| "append_child parent child ((k, nd) # nodes) =
     (if k = parent then Some ((k, nd\<lparr>children := children nd @ [child]\<rparr>) # nodes)
      else map_option ((#) (k, nd)) (append_child parent child nodes))"

fun link_children :: "(string \<times> string option) list \<Rightarrow> nodes \<Rightarrow> nodes option" where
  \<comment> \<open>the loop over \<open>parents.items()\<close>; \<open>if parent\<close> holds of a string that is not empty\<close>
  "link_children [] nodes = Some nodes"
| "link_children ((child, parent) # items) nodes =
     (case parent of
        None \<Rightarrow> link_children items nodes
      | Some p \<Rightarrow>
          if p \<noteq> [] \<and> child \<noteq> p
          then (case append_child p child nodes of
                  None \<Rightarrow> None
                | Some nodes' \<Rightarrow> link_children items nodes')
          else link_children items nodes)"

definition all_children :: "nodes \<Rightarrow> string list \<Rightarrow> string list option" where
  \<comment> \<open>\<open>{c for s in slims for c in nodes[s]["children"]}\<close>\<close>
  "all_children nodes slims =
     map_option (\<lambda>css. set_of (concat css))
       (those (map (\<lambda>s. map_option children (map_of nodes s)) slims))"

definition natural_roots :: "(string \<times> string option) list \<Rightarrow> string list \<Rightarrow> string list \<Rightarrow> string list" where
  \<comment> \<open>line 208\<close>
  "natural_roots parents all_ch slims =
     [s \<leftarrow> slims. parents_get parents s = None \<and> s \<notin> set all_ch]"

definition fallback_key :: "slim_index \<Rightarrow> string \<Rightarrow> int \<times> string" where
  \<comment> \<open>\<open>lambda s: (-sizes[s], s.casefold())\<close>\<close>
  "fallback_key slim_members s = (- int (sizes slim_members s), casefold s)"

definition roots_of :: "slim_index \<Rightarrow> string list \<Rightarrow> string list \<Rightarrow> string list" where
  \<comment> \<open>lines 209 and 210: the fallback for an empty root list\<close>
  "roots_of slim_members roots slims =
     (if roots = [] \<and> slims \<noteq> []
      then (case sort_key (fallback_key slim_members) slims of [] \<Rightarrow> [] | r # _ \<Rightarrow> [r])
      else roots)"

subsection \<open>The aggregator (lines 212 to 222)\<close>

text \<open>
  \<open>agg\<close> calls itself on the children of a node. The first argument of the model bounds the
  depth of the calls: \<open>None\<close> is the result when the bound is reached, as it is for a
  missing key. \<open>lru_cache\<close> does not change what \<open>agg\<close> returns.
\<close>

fun agg :: "nat \<Rightarrow> iteration \<Rightarrow> nodes \<Rightarrow> string \<Rightarrow> string list option" where
  "agg 0 enum nodes s = None"
| "agg (Suc n) enum nodes s =
     (case map_of nodes s of
        None \<Rightarrow> None
      | Some nd \<Rightarrow>
          (case those (map (agg n enum nodes) (children nd)) of
             None \<Rightarrow> None
           | Some below \<Rightarrow>
               Some (sorted_set enum casefold (fold (\<lambda>a seen. set_update seen a) below (set_of (members nd))))))"

definition aggregate_all :: "nat \<Rightarrow> iteration \<Rightarrow> nodes \<Rightarrow> string list \<Rightarrow> (string \<times> string list) list option" where
  \<comment> \<open>\<open>for s in slims: nodes[s]["aggregate_members"] = agg(s)\<close>; the model keeps the new
      field in a table of its own, with the keys of \<open>nodes\<close>\<close>
  "aggregate_all n enum nodes slims =
     those (map (\<lambda>s. case map_of nodes s of
                        None \<Rightarrow> None
                      | Some nd \<Rightarrow> map_option (Pair s) (agg n enum nodes s)) slims)"

subsection \<open>The serializer (lines 224 to 242)\<close>

datatype tree =
  Tree (tree_id: string) (tree_label: string) (tree_members: "string list")
       (tree_aggregate_members: "string list") (tree_children: "tree list")

fun pack :: "nat \<Rightarrow> nodes \<Rightarrow> (string \<times> string list) list \<Rightarrow> string \<Rightarrow> tree option" where
  "pack 0 nodes aggs s = None"
| "pack (Suc n) nodes aggs s =
     (case map_of nodes s of
        None \<Rightarrow> None
      | Some nd \<Rightarrow>
          (case map_of aggs s of
             None \<Rightarrow> None
           | Some am \<Rightarrow>
               (case those (map (pack n nodes aggs) (sort_key casefold (children nd))) of
                  None \<Rightarrow> None
                | Some cs \<Rightarrow> Some (Tree (node_id nd) (label nd) (members nd) am cs))))"

record response =
  ok :: bool
  tree :: tree

definition get_cell_tree :: "iteration \<Rightarrow> biosample list \<Rightarrow> response option" where
  "get_cell_tree enum bios =
     (let enc_terms = load_terms bios;
          slim_members = slim_buckets enc_terms;
          slims = map fst slim_members;
          parents = parents_of enum slim_members;
          depth = length slims
      in case link_children parents (build_nodes enum slim_members) of
           None \<Rightarrow> None
         | Some nodes \<Rightarrow>
             (case all_children nodes slims of
                None \<Rightarrow> None
              | Some all_ch \<Rightarrow>
                  let roots = roots_of slim_members (natural_roots parents all_ch slims) slims in
                  (case aggregate_all depth enum nodes slims of
                     None \<Rightarrow> None
                   | Some aggs \<Rightarrow>
                       (case those (map (pack depth nodes aggs) (sort_key casefold roots)) of
                          None \<Rightarrow> None
                        | Some cs \<Rightarrow>
                            Some \<lparr>ok = True,
                                  tree = Tree ''SLIM::ROOT'' ''Cell types'' []
                                    (sorted_set enum casefold (set_of (concat (map snd aggs)))) cs\<rparr>))))"

subsection \<open>The index of a catalog, and the parent rule in the words of the specification\<close>

definition catalog_index :: "biosample list \<Rightarrow> slim_index" where
  "catalog_index bios = slim_buckets (load_terms bios)"

text \<open>
  Section 4.3 of the specification: the candidates of a slim are the slims whose member
  set is a strict superset of its own; the minimal candidates are those with no other
  candidate strictly below them.
\<close>

definition strict_supersets :: "slim_index \<Rightarrow> string \<Rightarrow> string list" where
  "strict_supersets sm a =
     [b \<leftarrow> map fst sm. b \<noteq> a \<and> proper_subset (members_of sm a) (members_of sm b)]"

definition minimal_supersets :: "slim_index \<Rightarrow> string \<Rightarrow> string list" where
  "minimal_supersets sm a =
     [x \<leftarrow> strict_supersets sm a.
        \<forall>y \<in> set (strict_supersets sm a). \<not> proper_subset (members_of sm y) (members_of sm x)]"

subsection \<open>The node table in closed form\<close>

text \<open>
  The loops that build \<open>nodes\<close> are shown below to compute the following table: one node
  for each slim, in the order of \<open>slims\<close>, whose children are the slims that have it as
  parent and pass the test of line 203.
\<close>

definition mk_node :: "iteration \<Rightarrow> slim_index \<Rightarrow> string \<Rightarrow> node" where
  "mk_node enum slim_members s =
     \<lparr>node_id = ''SLIM::'' @ s, label = s, children = [],
      members = sorted_set enum casefold (members_of slim_members s)\<rparr>"

definition children_in :: "(string \<times> string option) list \<Rightarrow> string \<Rightarrow> string list" where
  "children_in parents p = map fst [(c, r) \<leftarrow> parents. r = Some p \<and> p \<noteq> [] \<and> c \<noteq> p]"

definition linked_nodes :: "iteration \<Rightarrow> slim_index \<Rightarrow> nodes" where
  "linked_nodes enum slim_members =
     map (\<lambda>s. (s, (mk_node enum slim_members s)
                    \<lparr>children := children_in (parents_of enum slim_members) s\<rparr>))
       (map fst slim_members)"

text \<open>
  The number of slims whose member set is strictly below that of \<open>s\<close>: it bounds the depth
  of the calls of \<open>agg\<close> and \<open>pack\<close> below \<open>s\<close>.
\<close>

definition rank :: "slim_index \<Rightarrow> string \<Rightarrow> nat" where
  "rank sm s = length [t \<leftarrow> map fst sm. proper_subset (members_of sm t) (members_of sm s)]"

subsection \<open>Example catalogs\<close>

definition cell_record :: "string \<Rightarrow> string list \<Rightarrow> biosample" where
  "cell_record name slims =
     \<lparr>classification = Some ''cell'', raw_term_name = Some name, raw_cell_slims = Some slims\<rparr>"

definition mixed_catalog :: "biosample list" where
  "mixed_catalog =
     [\<lparr>classification = Some '' Cell Line '', raw_term_name = Some ''A'', raw_cell_slims = Some [''x'']\<rparr>,
      \<lparr>classification = Some ''tissue'', raw_term_name = Some ''B'', raw_cell_slims = Some [''x'']\<rparr>,
      \<lparr>classification = None, raw_term_name = Some ''C'', raw_cell_slims = None\<rparr>,
      \<lparr>classification = Some ''cell'', raw_term_name = None, raw_cell_slims = Some [''y'']\<rparr>,
      \<lparr>classification = Some ''  '', raw_term_name = Some [], raw_cell_slims = Some [''y'']\<rparr>]"

definition chain_catalog :: "biosample list" where
  "chain_catalog = [cell_record ''A'' [''x'', ''y''], cell_record ''B'' [''y'']]"

definition tie_catalog :: "biosample list" where
  "tie_catalog =
     [cell_record ''A'' [''x'', ''y2'', ''Y1''], cell_record ''B'' [''x'', ''y2'', ''Y1''],
      cell_record ''C'' [''y2'', ''Y1'']]"

definition empty_label_catalog :: "biosample list" where
  "empty_label_catalog = [cell_record ''A'' [''x'', []], cell_record ''B'' [[]]]"

definition root_label_catalog :: "biosample list" where
  "root_label_catalog = [cell_record ''A'' [''ROOT'']]"

subsection \<open>The nodes of an output tree\<close>

fun tree_nodes :: "tree \<Rightarrow> tree list" where
  "tree_nodes (Tree i l m a cs) = Tree i l m a cs # concat (map tree_nodes cs)"

definition slim_nodes :: "tree \<Rightarrow> tree list" where
  \<comment> \<open>the nodes below the synthetic root\<close>
  "slim_nodes t = concat (map tree_nodes (tree_children t))"

definition shaped :: "tree \<Rightarrow> bool" where
  \<comment> \<open>the shape that consumers expect of a slim node\<close>
  "shaped u =
     (tree_id u = ''SLIM::'' @ tree_label u \<and>
      sorted (map casefold (tree_members u)) \<and> distinct (tree_members u) \<and>
      sorted (map casefold (tree_aggregate_members u)) \<and> distinct (tree_aggregate_members u) \<and>
      sorted (map casefold (map tree_label (tree_children u))))"

definition parent_rel :: "iteration \<Rightarrow> slim_index \<Rightarrow> (string \<times> string) set" where
  \<comment> \<open>the parent assignment as a relation from child to parent\<close>
  "parent_rel enum slim_members = {(c, p). choose_parent enum slim_members c = Some p}"

definition no_slims_catalog :: "biosample list" where
  "no_slims_catalog =
     [cell_record ''A'' [],
      \<lparr>classification = None, raw_term_name = Some ''B'', raw_cell_slims = None\<rparr>]"

definition padded_chain_catalog :: "biosample list" where
  "padded_chain_catalog = cell_record ''C'' [] # chain_catalog"

definition case_tie_catalog :: "biosample list" where
  "case_tie_catalog = [cell_record ''A'' [''x'', ''y'', ''Y''], cell_record ''B'' [''y'', ''Y'']]"

text \<open>
  No two slim labels of the index, and no two term names in its buckets, are equal after
  case folding.
\<close>

definition case_distinct :: "biosample list \<Rightarrow> bool" where
  "case_distinct bios =
     (distinct (map casefold (map fst (catalog_index bios))) \<and>
      distinct (map casefold (remdups (concat (map snd (catalog_index bios))))))"

definition size_catalog :: "biosample list" where
  "size_catalog =
     [cell_record ''A'' [''x'', ''z'', ''a''], cell_record ''B'' [''z''],
      cell_record ''C'' [''a''], cell_record ''D'' [''a'']]"

definition shared_name_catalog :: "biosample list" where
  "shared_name_catalog = [cell_record ''A'' [], cell_record ''A'' [''x'']]"

section \<open>The catalog loader\<close>

text \<open>
  Claim C6. The loader keeps, in order, exactly the records that the rule of the
  specification does not exclude: a record is excluded when its classification, trimmed
  and lower-cased, is not empty and not an allowed class, or when its name is missing or
  empty. A record whose classification is empty or absent and whose name is not empty is
  kept.
\<close>

theorem load_terms_filter:
  "load_terms bios = map to_term [b \<leftarrow> bios. \<not> spec_excluded b] \<and>
   (or_else (classification b) = [] \<and> raw_term_name b = Some n \<and> n \<noteq> []
      \<longrightarrow> \<not> spec_excluded b \<and> load_terms [b] = [to_term b])"
proof -
  have "load_terms bs = map to_term [b \<leftarrow> bs. \<not> spec_excluded b]" for bs
    by (induction bs)
      (auto simp: spec_excluded_def to_term_def or_else_def Let_def split: option.splits)
  moreover have "or_else (classification b) = [] \<and> raw_term_name b = Some n \<and> n \<noteq> []
      \<longrightarrow> \<not> spec_excluded b \<and> load_terms [b] = [to_term b]"
    by (auto simp: spec_excluded_def to_term_def or_else_def lower_def strip_def Let_def)
  ultimately show ?thesis by blast
qed

theorem load_terms_filter_witness:
  "load_terms mixed_catalog = map to_term [b \<leftarrow> mixed_catalog. \<not> spec_excluded b] \<and>
   load_terms mixed_catalog =
     [\<lparr>term_name = ''A'', cell_slims = [''x'']\<rparr>, \<lparr>term_name = ''C'', cell_slims = []\<rparr>] \<and>
   \<not> spec_excluded (mixed_catalog ! 2)"
  using load_terms_filter [of mixed_catalog "mixed_catalog ! 2" "''C''"]
  by (simp add: mixed_catalog_def lower_def strip_def is_space_def lower_char_def
      allowed_classes_def or_else_def spec_excluded_def to_term_def)

section \<open>Sets, sorting and the choice of a parent\<close>

lemma set_set_add [simp]: "set (set_add x s) = insert x (set s)"
  by (auto simp: set_add_def)

lemma distinct_set_add [simp]: "distinct (set_add x s) = distinct s"
  by (auto simp: set_add_def)

lemma set_set_update [simp]: "set (set_update s xs) = set s \<union> set xs"
  unfolding set_update_def by (induction xs arbitrary: s) auto

lemma distinct_set_update [simp]: "distinct (set_update s xs) = distinct s"
  unfolding set_update_def by (induction xs arbitrary: s) auto

lemma set_set_of [simp]: "set (set_of xs) = set xs"
  by (simp add: set_of_def)

lemma distinct_set_of [simp]: "distinct (set_of xs)"
  by (simp add: set_of_def)

lemma set_of_Nil [simp]: "set_of [] = []"
  by (simp add: set_of_def set_update_def)

lemma set_of_eq_Nil [simp]: "set_of xs = [] \<longleftrightarrow> xs = []"
  by (metis set_set_of set_empty)

lemma iteration_order_mset: "iteration_order enum \<Longrightarrow> mset (enum s) = mset s"
  by (simp add: iteration_order_def)

lemma iteration_order_set: "iteration_order enum \<Longrightarrow> set (enum s) = set s"
  by (metis iteration_order_mset set_mset_mset)

lemma iteration_order_distinct: "iteration_order enum \<Longrightarrow> distinct (enum s) = distinct s"
  by (metis iteration_order_mset mset_eq_imp_distinct_iff)

lemma iteration_order_Nil: "iteration_order enum \<Longrightarrow> enum [] = []"
  by (metis iteration_order_mset mset_zero_iff)

lemma set_sorted_set: "iteration_order enum \<Longrightarrow> set (sorted_set enum k s) = set s"
  by (simp add: sorted_set_def iteration_order_set)

lemma distinct_sorted_set: "iteration_order enum \<Longrightarrow> distinct (sorted_set enum k s) = distinct s"
  by (simp add: sorted_set_def iteration_order_distinct)

lemma sorted_sorted_set: "sorted (map k (sorted_set enum k s))"
  by (simp add: sorted_set_def)

lemma sorted_set_Nil: "iteration_order enum \<Longrightarrow> sorted_set enum k [] = []"
  by (simp add: sorted_set_def iteration_order_Nil)

lemma mset_sorted_set: "iteration_order enum \<Longrightarrow> mset (sorted_set enum k s) = mset s"
  by (simp add: sorted_set_def iteration_order_mset)

lemma hd_sort_key_least:
  "sort_key k xs = p # ps \<Longrightarrow> p \<in> set xs \<and> (\<forall>x \<in> set xs. k p \<le> k x)"
proof -
  assume a: "sort_key k xs = p # ps"
  have "set (p # ps) = set xs" using a by (metis set_sort)
  moreover have "sorted (map k (p # ps))" using a by (metis sorted_sort_key)
  ultimately show ?thesis by auto
qed

lemma discard_inner:
  "set (fold (\<lambda>y m. if P y then set_discard x m else m) ys m) =
     (if \<exists>y \<in> set ys. P y then set m - {x} else set m)"
  by (induction ys arbitrary: m) (auto simp: set_discard_def)

lemma discard_outer:
  "set (fold (\<lambda>x m. fold (\<lambda>y m. if P x y then set_discard x m else m) ys m) xs m) =
     set m - {x \<in> set xs. \<exists>y \<in> set ys. P x y}"
  by (induction xs arbitrary: m) (auto simp: discard_inner)

lemma set_minimal_of:
  "set (minimal_of sm cand) =
     {x \<in> set cand. \<not> (\<exists>y \<in> set cand. x \<noteq> y \<and>
         proper_subset (members_of sm y) (members_of sm x))}"
  unfolding minimal_of_def by (subst discard_outer) auto

lemma set_candidates:
  "set (candidates sm a) =
     {b \<in> fst ` set sm. a \<noteq> b \<and> proper_subset (members_of sm a) (members_of sm b)}"
  by (auto simp: candidates_def)

lemma proper_subset_irrefl [simp]: "\<not> proper_subset s s"
  by (simp add: proper_subset_def)

lemma proper_subset_trans: "proper_subset s t \<Longrightarrow> proper_subset t u \<Longrightarrow> proper_subset s u"
  unfolding proper_subset_def by (rule psubset_trans)

lemma proper_subset_card: "proper_subset s t \<Longrightarrow> card (set s) < card (set t)"
  by (simp add: proper_subset_def psubset_card_mono)

lemma candidates_eq: "candidates sm a = strict_supersets sm a"
  unfolding candidates_def strict_supersets_def by (rule filter_cong) auto

lemma set_minimal_supersets:
  "set (minimal_of sm (candidates sm a)) = set (minimal_supersets sm a)"
  unfolding set_minimal_of candidates_eq minimal_supersets_def by auto

lemma minimal_nonempty:
  assumes "cand \<noteq> []"
  shows "minimal_of sm cand \<noteq> []"
proof -
  let ?f = "\<lambda>s. card (set (members_of sm s))"
  let ?x = "arg_min_on ?f (set cand)"
  have fin: "finite (set cand)" and ne: "set cand \<noteq> {}" using assms by auto
  have x: "?x \<in> set cand" and least: "\<not> (\<exists>y \<in> set cand. ?f y < ?f ?x)"
    using arg_min_if_finite [OF fin ne, of ?f] by blast+
  have "?x \<in> set (minimal_of sm cand)"
    unfolding set_minimal_of using x least proper_subset_card by blast
  then show ?thesis by auto
qed

lemma choose_parent_Some:
  assumes "iteration_order enum" "choose_parent enum sm a = Some p"
  shows "p \<in> set (minimal_supersets sm a) \<and>
         (\<forall>m \<in> set (minimal_supersets sm a). parent_key sm p \<le> parent_key sm m)"
proof -
  let ?min = "minimal_of sm (candidates sm a)"
  from assms(2) obtain ps where s: "sorted_set enum (parent_key sm) ?min = p # ps"
    by (auto simp: choose_parent_def Let_def split: if_splits list.splits)
  then have "sort_key (parent_key sm) (enum ?min) = p # ps" by (simp add: sorted_set_def)
  from hd_sort_key_least [OF this]
  have "p \<in> set (enum ?min)" "\<forall>x \<in> set (enum ?min). parent_key sm p \<le> parent_key sm x" by auto
  then show ?thesis
    using assms(1) by (simp add: iteration_order_set set_minimal_supersets)
qed

lemma choose_parent_None:
  assumes "iteration_order enum"
  shows "choose_parent enum sm a = None \<longleftrightarrow> strict_supersets sm a = []"
proof
  assume "strict_supersets sm a = []"
  then show "choose_parent enum sm a = None" by (simp add: choose_parent_def candidates_eq)
next
  assume n: "choose_parent enum sm a = None"
  show "strict_supersets sm a = []"
  proof (rule ccontr)
    assume c: "strict_supersets sm a \<noteq> []"
    then have m: "minimal_of sm (candidates sm a) \<noteq> []"
      by (simp add: minimal_nonempty candidates_eq)
    have "set (sorted_set enum (parent_key sm) (minimal_of sm (candidates sm a)))
            = set (minimal_of sm (candidates sm a))"
      using assms by (rule set_sorted_set)
    with m have "sorted_set enum (parent_key sm) (minimal_of sm (candidates sm a)) \<noteq> []"
      by auto
    with n c m show False
      by (auto simp: choose_parent_def Let_def candidates_eq split: list.splits)
  qed
qed

lemma minimal_supersets_Nil: "minimal_supersets sm a = [] \<longleftrightarrow> strict_supersets sm a = []"
proof
  assume "strict_supersets sm a = []"
  then show "minimal_supersets sm a = []" by (simp add: minimal_supersets_def)
next
  assume e: "minimal_supersets sm a = []"
  show "strict_supersets sm a = []"
  proof (rule ccontr)
    assume "strict_supersets sm a \<noteq> []"
    then have "minimal_of sm (candidates sm a) \<noteq> []"
      by (simp add: minimal_nonempty candidates_eq)
    then have "set (minimal_of sm (candidates sm a)) \<noteq> {}" by simp
    with e show False by (simp add: set_minimal_supersets)
  qed
qed

lemma iteration_order_id: "iteration_order (\<lambda>s. s)"
  by (simp add: iteration_order_def)

lemma in_parents_of:
  "(a, r) \<in> set (parents_of enum sm) \<longleftrightarrow> a \<in> fst ` set sm \<and> r = choose_parent enum sm a"
  by (auto simp: parents_of_def)

lemma map_of_graph:
  "map_of (map (\<lambda>a. (a, f a)) ks) a = (if a \<in> set ks then Some (f a) else None)"
  by (induction ks) auto

lemma parents_get_parents_of:
  "parents_get (parents_of enum sm) a = (if a \<in> fst ` set sm then choose_parent enum sm a else None)"
  unfolding parents_get_def parents_of_def by (simp add: map_of_graph del: map_map)

lemma minimal_supersets_strict:
  "p \<in> set (minimal_supersets sm a) \<Longrightarrow>
     p \<in> fst ` set sm \<and> proper_subset (members_of sm a) (members_of sm p) \<and>
     (\<forall>q \<in> fst ` set sm. \<not> (proper_subset (members_of sm a) (members_of sm q) \<and>
                               proper_subset (members_of sm q) (members_of sm p)))"
  unfolding minimal_supersets_def strict_supersets_def by auto

section \<open>The parent assignment\<close>

text \<open>
  Claim C1 (minimal-parent law). If the parent assignment gives slim \<open>a\<close> the parent
  \<open>p\<close>, the members of \<open>a\<close> are a strict subset of the members of \<open>p\<close>, no slim of
  the index has a member set strictly between the two, and in particular the two member
  sets differ: slims with identical member sets never parent each other.
\<close>

theorem minimal_parent_law:
  assumes "iteration_order enum"
    and "(a, Some p) \<in> set (parents_of enum (catalog_index bios))"
  shows "proper_subset (members_of (catalog_index bios) a) (members_of (catalog_index bios) p) \<and>
         (\<forall>q \<in> set (map fst (catalog_index bios)).
            \<not> (proper_subset (members_of (catalog_index bios) a) (members_of (catalog_index bios) q) \<and>
               proper_subset (members_of (catalog_index bios) q) (members_of (catalog_index bios) p))) \<and>
         set (members_of (catalog_index bios) a) \<noteq> set (members_of (catalog_index bios) p)"
proof -
  let ?sm = "catalog_index bios"
  from assms(2) have "choose_parent enum ?sm a = Some p" by (simp add: in_parents_of)
  with assms(1) have "p \<in> set (minimal_supersets ?sm a)" by (simp add: choose_parent_Some)
  from minimal_supersets_strict [OF this] show ?thesis
    by (auto simp: proper_subset_def)
qed

theorem minimal_parent_law_witness:
  "iteration_order (\<lambda>s. s) \<and>
   (''x'', Some ''y'') \<in> set (parents_of (\<lambda>s. s) (catalog_index chain_catalog)) \<and>
   proper_subset (members_of (catalog_index chain_catalog) ''x'')
                 (members_of (catalog_index chain_catalog) ''y'')"
proof -
  have h: "(''x'', Some ''y'') \<in> set (parents_of (\<lambda>s. s) (catalog_index chain_catalog))"
    by code_simp
  from minimal_parent_law [OF iteration_order_id h] iteration_order_id h
  show ?thesis by blast
qed

section \<open>The empty catalog\<close>

text \<open>
  Claim C7. On the empty catalog the builder does not fail: it returns the synthetic root
  with an empty list of children and an empty list of aggregate members.
\<close>

theorem empty_catalog_tree:
  assumes "iteration_order enum"
  shows "get_cell_tree enum [] =
           Some \<lparr>ok = True, tree = Tree ''SLIM::ROOT'' ''Cell types'' [] [] []\<rparr>"
  using assms
  by (simp add: get_cell_tree_def slim_buckets_def parents_of_def build_nodes_def all_children_def
      natural_roots_def roots_of_def aggregate_all_def sorted_set_Nil)

theorem empty_catalog_tree_witness:
  "iteration_order rev \<and>
   map_option (tree_children \<circ> tree) (get_cell_tree rev []) = Some [] \<and>
   map_option (tree_aggregate_members \<circ> tree) (get_cell_tree rev []) = Some []"
proof -
  have h: "iteration_order rev" by (simp add: iteration_order_def)
  from empty_catalog_tree [OF h] h show ?thesis by simp
qed

section \<open>A parent with the empty label\<close>

text \<open>
  Claim C3 (forest property) asks that every slim that is not a root is reached from a
  root along the children lists. Line 203 tests \<open>if parent\<close>, which fails for the label
  \<open>""\<close>, while line 208 tests \<open>is None\<close>. In the catalog below slim \<open>x\<close> has the parent
  \<open>""\<close>: it is not a root, it is in no children list, and the output tree has no node for
  it.
\<close>

theorem empty_label_parent_drops_child:
  "parents_of (\<lambda>s. s) (catalog_index empty_label_catalog) = [(''x'', Some []), ([], None)] \<and>
   get_cell_tree (\<lambda>s. s) empty_label_catalog =
     Some \<lparr>ok = True, tree = Tree ''SLIM::ROOT'' ''Cell types'' [] [''A'', ''B'']
             [Tree ''SLIM::'' [] [''A'', ''B''] [''A'', ''B''] []]\<rparr> \<and>
   ''x'' \<notin> set (map tree_label
      (slim_nodes (Tree ''SLIM::ROOT'' ''Cell types'' [] [''A'', ''B'']
             [Tree ''SLIM::'' [] [''A'', ''B''] [''A'', ''B''] []])))"
  by code_simp

section \<open>The node table\<close>

lemma fst_setdefault_add: "map fst (setdefault_add slim name d) =
   (if slim \<in> fst ` set d then map fst d else map fst d @ [slim])"
  by (induction d) (force+)

lemma distinct_setdefault_add:
  "distinct (map fst d) \<Longrightarrow> distinct (map fst (setdefault_add slim name d))"
  by (simp add: fst_setdefault_add)

lemma distinct_fold_slims:
  "distinct (map fst d) \<Longrightarrow>
   distinct (map fst (fold (\<lambda>slim d. setdefault_add slim name d) slims d))"
  by (induction slims arbitrary: d) (auto simp: distinct_setdefault_add)

lemma distinct_fold_terms:
  "distinct (map fst d) \<Longrightarrow>
   distinct (map fst (fold (\<lambda>t d. fold (\<lambda>slim d. setdefault_add slim (term_name t) d) (cell_slims t) d) ts d))"
  by (induction ts arbitrary: d) (auto simp: distinct_fold_slims)

lemma distinct_slim_buckets: "distinct (map fst (slim_buckets ts))"
proof -
  have "distinct (map fst (filter P d))" if "distinct (map fst d)" for P and d :: slim_index
    using that by (simp add: distinct_map_filter)
  then show ?thesis
    unfolding slim_buckets_def Let_def by (simp add: distinct_fold_terms)
qed

lemma distinct_catalog_index: "distinct (map fst (catalog_index bios))"
  by (simp add: catalog_index_def distinct_slim_buckets)

lemma ensure_node_fold:
  "distinct ks \<Longrightarrow> set ks \<inter> fst ` set nodes = {} \<Longrightarrow>
   fold (ensure_node enum sm) ks nodes = nodes @ map (\<lambda>s. (s, mk_node enum sm s)) ks"
proof (induction ks arbitrary: nodes)
  case Nil
  then show ?case by simp
next
  case (Cons k ks)
  have e: "ensure_node enum sm k nodes = nodes @ [(k, mk_node enum sm k)]"
    using Cons.prems by (auto simp: ensure_node_def mk_node_def)
  have "set ks \<inter> fst ` set (nodes @ [(k, mk_node enum sm k)]) = {}"
    using Cons.prems by auto
  with Cons.IH [of "nodes @ [(k, mk_node enum sm k)]"] Cons.prems e show ?case by simp
qed

lemma build_nodes_eq:
  "distinct (map fst sm) \<Longrightarrow> build_nodes enum sm = map (\<lambda>s. (s, mk_node enum sm s)) (map fst sm)"
  unfolding build_nodes_def using ensure_node_fold [of "map fst sm" "[]" enum sm] by simp

lemma append_child_eq:
  "p \<in> fst ` set nodes \<Longrightarrow> distinct (map fst nodes) \<Longrightarrow>
   append_child p c nodes =
     Some (map (\<lambda>(k, nd). (k, if k = p then nd\<lparr>children := children nd @ [c]\<rparr> else nd)) nodes)"
proof (induction nodes)
  case Nil
  then show ?case by simp
next
  case (Cons a nodes)
  obtain k nd where a: "a = (k, nd)" by (cases a)
  show ?case
  proof (cases "k = p")
    case True
    then have "p \<notin> fst ` set nodes" using Cons.prems a by auto
    then have "map (\<lambda>(k, nd). (k, if k = p then nd\<lparr>children := children nd @ [c]\<rparr> else nd)) nodes = nodes"
      by (induction nodes) auto
    with True a show ?thesis by simp
  next
    case False
    with Cons a show ?thesis by auto
  qed
qed

lemma children_in_Cons:
  "children_in ((c, r) # items) k =
     (if r = Some k \<and> k \<noteq> [] \<and> c \<noteq> k then c # children_in items k else children_in items k)"
  by (simp add: children_in_def)

lemma children_in_Nil [simp]: "children_in [] k = []"
  by (simp add: children_in_def)

lemma link_children_eq:
  assumes "distinct (map fst nodes)"
    and "\<forall>(c, r) \<in> set items. \<forall>p. r = Some p \<and> p \<noteq> [] \<and> c \<noteq> p \<longrightarrow> p \<in> fst ` set nodes"
  shows "link_children items nodes =
           Some (map (\<lambda>(k, nd). (k, nd\<lparr>children := children nd @ children_in items k\<rparr>)) nodes)"
  using assms
proof (induction items arbitrary: nodes)
  case Nil
  have "map (\<lambda>(k, nd). (k, nd\<lparr>children := children nd @ []\<rparr>)) nodes = nodes"
    by (induction nodes) auto
  then show ?case by simp
next
  case (Cons a items)
  obtain c r where a: "a = (c, r)" by (cases a)
  have rest: "\<forall>(c, r) \<in> set items. \<forall>p. r = Some p \<and> p \<noteq> [] \<and> c \<noteq> p \<longrightarrow> p \<in> fst ` set nodes"
    using Cons.prems(2) by auto
  show ?case
  proof (cases "\<exists>p. r = Some p \<and> p \<noteq> [] \<and> c \<noteq> p")
    case False
    then have l: "link_children (a # items) nodes = link_children items nodes"
      using a by (cases r) auto
    have "children_in (a # items) k = children_in items k" for k
      using False a by (auto simp: children_in_Cons)
    with l Cons.IH [OF Cons.prems(1) rest] show ?thesis by simp
  next
    case True
    then obtain p where p: "r = Some p" "p \<noteq> []" "c \<noteq> p" by blast
    then have pin: "p \<in> fst ` set nodes" using Cons.prems(2) a by auto
    let ?n1 = "map (\<lambda>(k, nd). (k, if k = p then nd\<lparr>children := children nd @ [c]\<rparr> else nd)) nodes"
    have ac: "append_child p c nodes = Some ?n1"
      using append_child_eq [OF pin Cons.prems(1)] .
    have k1: "map fst ?n1 = map fst nodes" by (induction nodes) auto
    have d1: "distinct (map fst ?n1)" unfolding k1 using Cons.prems(1) .
    have f1: "fst ` set ?n1 = fst ` set nodes" using k1 by (metis list.set_map)
    have r1: "\<forall>(c, r) \<in> set items. \<forall>p. r = Some p \<and> p \<noteq> [] \<and> c \<noteq> p \<longrightarrow> p \<in> fst ` set ?n1"
      using rest unfolding f1 .
    have l: "link_children (a # items) nodes = link_children items ?n1"
      using a p ac by simp
    have "map (\<lambda>(k, nd). (k, nd\<lparr>children := children nd @ children_in items k\<rparr>)) ?n1 =
          map (\<lambda>(k, nd). (k, nd\<lparr>children := children nd @ children_in (a # items) k\<rparr>)) nodes"
      using a p by (induction nodes) (auto simp: children_in_Cons)
    with l Cons.IH [OF d1 r1] show ?thesis by simp
  qed
qed

lemma choose_parent_in_keys:
  "iteration_order enum \<Longrightarrow> choose_parent enum sm a = Some p \<Longrightarrow> p \<in> fst ` set sm"
  using choose_parent_Some minimal_supersets_strict by blast

lemma link_children_linked:
  assumes "iteration_order enum" "distinct (map fst sm)"
  shows "link_children (parents_of enum sm) (build_nodes enum sm) = Some (linked_nodes enum sm)"
proof -
  let ?nodes = "map (\<lambda>s. (s, mk_node enum sm s)) (map fst sm)"
  have b: "build_nodes enum sm = ?nodes" using assms(2) by (rule build_nodes_eq)
  have k: "map fst ?nodes = map fst sm" by (simp add: comp_def)
  have d: "distinct (map fst ?nodes)" unfolding k using assms(2) .
  have f: "fst ` set ?nodes = fst ` set sm" by force
  have r: "\<forall>(c, r) \<in> set (parents_of enum sm). \<forall>p. r = Some p \<and> p \<noteq> [] \<and> c \<noteq> p \<longrightarrow> p \<in> fst ` set ?nodes"
    unfolding f using assms(1) by (auto simp: in_parents_of dest: choose_parent_in_keys [OF _ sym])
  have "map (\<lambda>(k, nd). (k, nd\<lparr>children := children nd @ children_in (parents_of enum sm) k\<rparr>)) ?nodes
        = linked_nodes enum sm"
    by (simp add: linked_nodes_def mk_node_def comp_def)
  with link_children_eq [OF d r] b show ?thesis by simp
qed

lemma map_of_linked_nodes:
  "map_of (linked_nodes enum sm) s =
     (if s \<in> fst ` set sm
      then Some ((mk_node enum sm s)\<lparr>children := children_in (parents_of enum sm) s\<rparr>)
      else None)"
  unfolding linked_nodes_def by (simp add: map_of_graph del: map_map)

lemma children_in_parents_of:
  "set (children_in (parents_of enum sm) p) =
     {c \<in> fst ` set sm. choose_parent enum sm c = Some p \<and> p \<noteq> [] \<and> c \<noteq> p}"
  unfolding children_in_def parents_of_def by force

lemma those_map_Some:
  "\<forall>x \<in> set xs. f x = Some (g x) \<Longrightarrow> those (map f xs) = Some (map g xs)"
  by (induction xs) auto

lemma all_children_linked:
  "all_children (linked_nodes enum sm) (map fst sm) =
     Some (set_of (concat (map (children_in (parents_of enum sm)) (map fst sm))))"
proof -
  have "\<forall>s \<in> set (map fst sm). map_option children (map_of (linked_nodes enum sm) s) =
          Some (children_in (parents_of enum sm) s)"
    by (simp add: map_of_linked_nodes)
  from those_map_Some [OF this] show ?thesis
    unfolding all_children_def by simp
qed

lemma natural_roots_linked:
  "natural_roots (parents_of enum sm)
     (set_of (concat (map (children_in (parents_of enum sm)) (map fst sm)))) (map fst sm) =
   [s \<leftarrow> map fst sm. choose_parent enum sm s = None]"
  unfolding natural_roots_def
  by (rule filter_cong) (auto simp: parents_get_parents_of children_in_parents_of)

lemma largest_has_no_superset:
  assumes "sm \<noteq> []"
  shows "\<exists>s \<in> fst ` set sm. strict_supersets sm s = []"
proof -
  let ?f = "\<lambda>s. card (set (members_of sm s))"
  let ?K = "fst ` set sm"
  have fin: "finite ?K" and ne: "?K \<noteq> {}" using assms by auto
  have fi: "finite (?f ` ?K)" and nei: "?f ` ?K \<noteq> {}" using fin ne by auto
  from Max_in [OF fi nei] have "Max (?f ` ?K) \<in> ?f ` ?K" .
  then obtain s where s: "s \<in> ?K" and ms: "Max (?f ` ?K) = ?f s" by (rule imageE)
  have mx: "\<forall>t \<in> ?K. ?f t \<le> ?f s"
  proof
    fix t assume "t \<in> ?K"
    then have "?f t \<in> ?f ` ?K" by (rule imageI)
    from Max_ge [OF fi this] ms show "?f t \<le> ?f s" by simp
  qed
  have "strict_supersets sm s = []"
    unfolding strict_supersets_def filter_empty_conv
  proof (intro ballI notI)
    fix b assume "b \<in> set (map fst sm)" and "b \<noteq> s \<and> proper_subset (members_of sm s) (members_of sm b)"
    then have "b \<in> ?K" "?f s < ?f b" by (auto dest: proper_subset_card)
    with mx show False by fastforce
  qed
  with s show ?thesis by blast
qed

lemma natural_roots_nonempty:
  assumes "iteration_order enum" "sm \<noteq> []"
  shows "[s \<leftarrow> map fst sm. choose_parent enum sm s = None] \<noteq> []"
proof -
  from largest_has_no_superset [OF assms(2)] obtain s where
    "s \<in> fst ` set sm" "strict_supersets sm s = []" by blast
  then have "s \<in> set (map fst sm)" "choose_parent enum sm s = None"
    using assms(1) by (auto simp: choose_parent_None)
  then show ?thesis by (auto simp: filter_empty_conv)
qed

section \<open>The roots\<close>

text \<open>
  Claim C9. When the slim membership index is not empty, the root list computed on line 208
  (the slims without parent that are in no children list) is not empty, so the fallback
  of lines 209 and 210 leaves it as it is.
\<close>

theorem fallback_not_taken:
  assumes "iteration_order enum" and "catalog_index bios \<noteq> []"
  shows "\<exists>nodes all_ch.
           link_children (parents_of enum (catalog_index bios)) (build_nodes enum (catalog_index bios))
             = Some nodes \<and>
           all_children nodes (map fst (catalog_index bios)) = Some all_ch \<and>
           natural_roots (parents_of enum (catalog_index bios)) all_ch (map fst (catalog_index bios))
             \<noteq> [] \<and>
           roots_of (catalog_index bios)
             (natural_roots (parents_of enum (catalog_index bios)) all_ch (map fst (catalog_index bios)))
             (map fst (catalog_index bios)) =
           natural_roots (parents_of enum (catalog_index bios)) all_ch (map fst (catalog_index bios))"
proof -
  let ?sm = "catalog_index bios"
  let ?all = "set_of (concat (map (children_in (parents_of enum ?sm)) (map fst ?sm)))"
  have l: "link_children (parents_of enum ?sm) (build_nodes enum ?sm) = Some (linked_nodes enum ?sm)"
    using assms(1) distinct_catalog_index by (rule link_children_linked)
  have a: "all_children (linked_nodes enum ?sm) (map fst ?sm) = Some ?all"
    by (rule all_children_linked)
  have n: "natural_roots (parents_of enum ?sm) ?all (map fst ?sm) \<noteq> []"
    unfolding natural_roots_linked using assms by (rule natural_roots_nonempty)
  then have "roots_of ?sm (natural_roots (parents_of enum ?sm) ?all (map fst ?sm)) (map fst ?sm) =
             natural_roots (parents_of enum ?sm) ?all (map fst ?sm)"
    by (simp add: roots_of_def)
  with l a n show ?thesis by blast
qed

theorem fallback_not_taken_witness:
  "iteration_order (\<lambda>s. s) \<and> catalog_index chain_catalog \<noteq> [] \<and>
   (\<exists>nodes all_ch.
      link_children (parents_of (\<lambda>s. s) (catalog_index chain_catalog))
        (build_nodes (\<lambda>s. s) (catalog_index chain_catalog)) = Some nodes \<and>
      all_children nodes (map fst (catalog_index chain_catalog)) = Some all_ch \<and>
      natural_roots (parents_of (\<lambda>s. s) (catalog_index chain_catalog)) all_ch
        (map fst (catalog_index chain_catalog)) \<noteq> [])"
proof -
  have h: "catalog_index chain_catalog \<noteq> []" by code_simp
  from fallback_not_taken [OF iteration_order_id h] iteration_order_id h
  show ?thesis by blast
qed

section \<open>The aggregator\<close>

lemma those_eq_Some: "those xs = Some ys \<longleftrightarrow> xs = map Some ys"
  by (induction xs arbitrary: ys) (auto split: option.splits)

lemma set_fold_update:
  "set (fold (\<lambda>a seen. set_update seen a) below init) = set init \<union> \<Union> (set ` set below)"
  by (induction below arbitrary: init) auto

lemma distinct_fold_update:
  "distinct (fold (\<lambda>a seen. set_update seen a) below init) = distinct init"
  by (induction below arbitrary: init) auto

lemma agg_mono: "agg n enum nodes s = Some r \<Longrightarrow> agg (Suc n) enum nodes s = Some r"
proof (induction n arbitrary: s r)
  case 0
  then show ?case by simp
next
  case (Suc n)
  from Suc.prems obtain nd below where nd: "map_of nodes s = Some nd"
    and b: "those (map (agg n enum nodes) (children nd)) = Some below"
    and r: "r = sorted_set enum casefold (fold (\<lambda>a seen. set_update seen a) below (set_of (members nd)))"
    by (auto split: option.splits)
  from b have m: "map (agg n enum nodes) (children nd) = map Some below"
    by (simp add: those_eq_Some)
  have "map (agg (Suc n) enum nodes) (children nd) = map (agg n enum nodes) (children nd)"
  proof (rule map_cong [OF refl])
    fix c assume "c \<in> set (children nd)"
    then have "agg n enum nodes c \<in> set (map Some below)" using m by (metis image_eqI list.set_map)
    then obtain x where "agg n enum nodes c = Some x" by auto
    with Suc.IH show "agg (Suc n) enum nodes c = agg n enum nodes c" by simp
  qed
  with m have "those (map (agg (Suc n) enum nodes) (children nd)) = Some below"
    by (simp add: those_eq_Some)
  with nd r show ?case by simp
qed

lemma agg_mono_le: "agg n enum nodes s = Some r \<Longrightarrow> n \<le> m \<Longrightarrow> agg m enum nodes s = Some r"
  by (induction m) (auto simp: le_Suc_eq simp del: agg.simps intro: agg_mono)


lemma length_filter_strict:
  assumes "\<forall>x \<in> set xs. P x \<longrightarrow> Q x" and "c \<in> set xs" and "Q c" and "\<not> P c"
  shows "length (filter P xs) < length (filter Q xs)"
  using assms
proof (induction xs)
  case Nil
  then show ?case by simp
next
  case (Cons x xs)
  have le: "length (filter P xs) \<le> length (filter Q xs)"
  proof -
    have "filter P xs = filter P (filter Q xs)"
      using Cons.prems(1) by (auto intro: filter_cong)
    then show ?thesis by (metis length_filter_le)
  qed
  show ?case
  proof (cases "c = x")
    case True
    with Cons.prems le show ?thesis by auto
  next
    case False
    with Cons.prems have "c \<in> set xs" by auto
    with Cons have "length (filter P xs) < length (filter Q xs)" by auto
    with Cons.prems(1) show ?thesis by auto
  qed
qed

lemma rank_less:
  assumes "c \<in> fst ` set sm" and "proper_subset (members_of sm c) (members_of sm s)"
  shows "rank sm c < rank sm s"
  unfolding rank_def
proof (rule length_filter_strict [where c = c])
  show "\<forall>x \<in> set (map fst sm). proper_subset (members_of sm x) (members_of sm c) \<longrightarrow>
          proper_subset (members_of sm x) (members_of sm s)"
    using assms(2) proper_subset_trans by blast
  show "c \<in> set (map fst sm)" using assms(1) by simp
  show "proper_subset (members_of sm c) (members_of sm s)" by (rule assms(2))
  show "\<not> proper_subset (members_of sm c) (members_of sm c)" by simp
qed

lemma rank_bound: "s \<in> fst ` set sm \<Longrightarrow> rank sm s < length sm"
proof -
  assume s: "s \<in> fst ` set sm"
  have "length [t \<leftarrow> map fst sm. proper_subset (members_of sm t) (members_of sm s)]
        < length [t \<leftarrow> map fst sm. True]"
    by (rule length_filter_strict [where c = s]) (use s in auto)
  then show ?thesis by (simp add: rank_def)
qed

lemma child_below:
  assumes "iteration_order enum" and "c \<in> set (children_in (parents_of enum sm) s)"
  shows "c \<in> fst ` set sm \<and> s \<in> fst ` set sm \<and>
         proper_subset (members_of sm c) (members_of sm s)"
proof -
  from assms(2) have c: "c \<in> fst ` set sm" and p: "choose_parent enum sm c = Some s"
    by (auto simp: children_in_parents_of)
  from choose_parent_Some [OF assms(1) p] have "s \<in> set (minimal_supersets sm c)" by simp
  from minimal_supersets_strict [OF this] c show ?thesis by simp
qed

lemma agg_linked_total:
  assumes "iteration_order enum"
  shows "s \<in> fst ` set sm \<Longrightarrow> rank sm s < n \<Longrightarrow> \<exists>r. agg n enum (linked_nodes enum sm) s = Some r"
proof (induction n arbitrary: s)
  case 0
  then show ?case by simp
next
  case (Suc n)
  let ?nodes = "linked_nodes enum sm"
  let ?cs = "children_in (parents_of enum sm) s"
  have nd: "map_of ?nodes s = Some ((mk_node enum sm s)\<lparr>children := ?cs\<rparr>)"
    using Suc.prems(1) by (simp add: map_of_linked_nodes)
  have "\<forall>c \<in> set ?cs. agg n enum ?nodes c = Some (the (agg n enum ?nodes c))"
  proof
    fix c assume c: "c \<in> set ?cs"
    from child_below [OF assms c] have k: "c \<in> fst ` set sm"
      and "proper_subset (members_of sm c) (members_of sm s)" by auto
    then have "rank sm c < rank sm s" by (simp add: rank_less)
    with Suc.prems(2) have "rank sm c < n" by simp
    from Suc.IH [OF k this] show "agg n enum ?nodes c = Some (the (agg n enum ?nodes c))" by auto
  qed
  from those_map_Some [OF this] nd show ?case by simp
qed

lemma agg_step:
  assumes "iteration_order enum" and "agg (Suc n) enum nodes s = Some r"
    and "map_of nodes s = Some nd"
  shows "sorted (map casefold r) \<and> distinct r \<and>
         (\<forall>c \<in> set (children nd). \<exists>rc. agg n enum nodes c = Some rc \<and> set rc \<subseteq> set r) \<and>
         set (members nd) \<subseteq> set r \<and>
         (\<forall>x \<in> set r. x \<in> set (members nd) \<or>
            (\<exists>c \<in> set (children nd). \<exists>rc. agg n enum nodes c = Some rc \<and> x \<in> set rc))"
proof -
  from assms(2,3) obtain below where
    b: "those (map (agg n enum nodes) (children nd)) = Some below"
    and r: "r = sorted_set enum casefold (fold (\<lambda>a seen. set_update seen a) below (set_of (members nd)))"
    by (auto split: option.splits)
  from b have m: "map (agg n enum nodes) (children nd) = map Some below"
    by (simp add: those_eq_Some)
  have sr: "set r = set (members nd) \<union> \<Union> (set ` set below)"
    using assms(1) r by (simp add: set_sorted_set set_fold_update)
  have dr: "distinct r"
    using assms(1) r by (simp add: distinct_sorted_set distinct_fold_update)
  have so: "sorted (map casefold r)" using r by (simp add: sorted_sorted_set)
  have c1: "\<forall>c \<in> set (children nd). \<exists>rc. agg n enum nodes c = Some rc \<and> rc \<in> set below"
  proof
    fix c assume "c \<in> set (children nd)"
    then have "agg n enum nodes c \<in> set (map Some below)" using m by (metis image_eqI list.set_map)
    then show "\<exists>rc. agg n enum nodes c = Some rc \<and> rc \<in> set below" by auto
  qed
  have c2: "\<forall>rc \<in> set below. \<exists>c \<in> set (children nd). agg n enum nodes c = Some rc"
  proof
    fix rc assume "rc \<in> set below"
    then have "Some rc \<in> set (map (agg n enum nodes) (children nd))" using m by simp
    then show "\<exists>c \<in> set (children nd). agg n enum nodes c = Some rc" by auto
  qed
  from c1 sr have "\<forall>c \<in> set (children nd). \<exists>rc. agg n enum nodes c = Some rc \<and> set rc \<subseteq> set r"
    by blast
  moreover from c2 sr have "\<forall>x \<in> set r. x \<in> set (members nd) \<or>
            (\<exists>c \<in> set (children nd). \<exists>rc. agg n enum nodes c = Some rc \<and> x \<in> set rc)"
    by blast
  ultimately show ?thesis using so dr sr by blast
qed

text \<open>
  Claim C5 (aggregator). For every slim \<open>s\<close>, \<open>agg(s)\<close> returns; its result is sorted
  case-insensitively and has no duplicates; it contains the members of \<open>s\<close> and the
  aggregate of every child of \<open>s\<close>, and nothing else: it is the union of the members of
  \<open>s\<close> with the aggregates of the children of \<open>s\<close>.
\<close>

theorem aggregate_members_union:
  assumes "iteration_order enum" and "s \<in> set (map fst (catalog_index bios))"
  shows "\<exists>nodes nd r.
           link_children (parents_of enum (catalog_index bios)) (build_nodes enum (catalog_index bios))
             = Some nodes \<and>
           map_of nodes s = Some nd \<and>
           agg (length (map fst (catalog_index bios))) enum nodes s = Some r \<and>
           sorted (map casefold r) \<and> distinct r \<and>
           set (members nd) \<subseteq> set r \<and>
           (\<forall>c \<in> set (children nd).
              \<exists>rc. agg (length (map fst (catalog_index bios))) enum nodes c = Some rc \<and>
                   set rc \<subseteq> set r) \<and>
           (\<forall>x \<in> set r. x \<in> set (members nd) \<or>
              (\<exists>c \<in> set (children nd).
                 \<exists>rc. agg (length (map fst (catalog_index bios))) enum nodes c = Some rc \<and>
                      x \<in> set rc))"
proof -
  let ?sm = "catalog_index bios"
  let ?nodes = "linked_nodes enum ?sm"
  let ?N = "length (map fst ?sm)"
  have k: "s \<in> fst ` set ?sm" using assms(2) by simp
  have l: "link_children (parents_of enum ?sm) (build_nodes enum ?sm) = Some ?nodes"
    using assms(1) distinct_catalog_index by (rule link_children_linked)
  from k obtain nd where nd: "map_of ?nodes s = Some nd" by (simp add: map_of_linked_nodes)
  have rb: "rank ?sm s < ?N" using rank_bound [OF k] by simp
  then obtain n where N: "?N = Suc n" by (cases ?N) auto
  from agg_linked_total [OF assms(1) k rb] obtain r where r: "agg ?N enum ?nodes s = Some r"
    by blast
  from r N have "agg (Suc n) enum ?nodes s = Some r" by simp
  from agg_step [OF assms(1) this nd]
  have so: "sorted (map casefold r)" and dr: "distinct r" and mem: "set (members nd) \<subseteq> set r"
    and c1: "\<forall>c \<in> set (children nd). \<exists>rc. agg n enum ?nodes c = Some rc \<and> set rc \<subseteq> set r"
    and c2: "\<forall>x \<in> set r. x \<in> set (members nd) \<or>
            (\<exists>c \<in> set (children nd). \<exists>rc. agg n enum ?nodes c = Some rc \<and> x \<in> set rc)"
    by blast+
  have up: "agg n enum ?nodes c = Some rc \<Longrightarrow> agg ?N enum ?nodes c = Some rc" for c rc
    unfolding N by (rule agg_mono)
  from c1 up have d1: "\<forall>c \<in> set (children nd). \<exists>rc. agg ?N enum ?nodes c = Some rc \<and> set rc \<subseteq> set r"
    by blast
  from c2 up have d2: "\<forall>x \<in> set r. x \<in> set (members nd) \<or>
            (\<exists>c \<in> set (children nd). \<exists>rc. agg ?N enum ?nodes c = Some rc \<and> x \<in> set rc)"
    by blast
  from l nd r so dr mem d1 d2 show ?thesis by blast
qed

theorem aggregate_members_union_witness:
  "iteration_order (\<lambda>s. s) \<and> ''y'' \<in> set (map fst (catalog_index chain_catalog)) \<and>
   (\<exists>nodes nd r.
      link_children (parents_of (\<lambda>s. s) (catalog_index chain_catalog))
        (build_nodes (\<lambda>s. s) (catalog_index chain_catalog)) = Some nodes \<and>
      map_of nodes ''y'' = Some nd \<and>
      agg (length (map fst (catalog_index chain_catalog))) (\<lambda>s. s) nodes ''y'' = Some r \<and>
      sorted (map casefold r) \<and> distinct r \<and> set (members nd) \<subseteq> set r)"
proof -
  have h: "''y'' \<in> set (map fst (catalog_index chain_catalog))" by code_simp
  from aggregate_members_union [OF iteration_order_id h] iteration_order_id h
  show ?thesis by blast
qed

section \<open>The output tree\<close>

lemma aggregate_all_linked:
  assumes "iteration_order enum"
  shows "\<exists>aggs. aggregate_all (length (map fst sm)) enum (linked_nodes enum sm) (map fst sm) = Some aggs \<and>
           map fst aggs = map fst sm \<and>
           (\<forall>s \<in> fst ` set sm. map_of aggs s = agg (length (map fst sm)) enum (linked_nodes enum sm) s \<and>
                                 map_of aggs s \<noteq> None)"
proof -
  let ?nodes = "linked_nodes enum sm"
  let ?N = "length (map fst sm)"
  let ?g = "\<lambda>s. (s, the (agg ?N enum ?nodes s))"
  have tot: "\<exists>r. agg ?N enum ?nodes s = Some r" if "s \<in> fst ` set sm" for s
    using agg_linked_total [OF assms that, of ?N] rank_bound [OF that] by simp
  have "\<forall>s \<in> set (map fst sm).
          (case map_of ?nodes s of None \<Rightarrow> None
           | Some nd \<Rightarrow> map_option (Pair s) (agg ?N enum ?nodes s)) = Some (?g s)"
  proof
    fix s assume "s \<in> set (map fst sm)"
    then have k: "s \<in> fst ` set sm" by simp
    from tot [OF k] obtain r where "agg ?N enum ?nodes s = Some r" by blast
    with k show "(case map_of ?nodes s of None \<Rightarrow> None
           | Some nd \<Rightarrow> map_option (Pair s) (agg ?N enum ?nodes s)) = Some (?g s)"
      by (simp add: map_of_linked_nodes)
  qed
  from those_map_Some [OF this]
  have a: "aggregate_all ?N enum ?nodes (map fst sm) = Some (map ?g (map fst sm))"
    unfolding aggregate_all_def .
  have f: "map fst (map ?g (map fst sm)) = map fst sm" by (simp add: comp_def)
  have "map_of (map ?g (map fst sm)) s = agg ?N enum ?nodes s \<and> map_of (map ?g (map fst sm)) s \<noteq> None"
    if "s \<in> fst ` set sm" for s
  proof -
    from tot [OF that] obtain r where r: "agg ?N enum ?nodes s = Some r" by blast
    have "map_of (map (\<lambda>s. (s, the (agg ?N enum ?nodes s))) (map fst sm)) s
          = Some (the (agg ?N enum ?nodes s))"
      using that by (simp add: map_of_graph del: map_map)
    with r show ?thesis by simp
  qed
  with a f show ?thesis by blast
qed

lemma pack_linked_total:
  assumes "iteration_order enum"
    and "\<forall>s \<in> fst ` set sm. map_of aggs s \<noteq> None"
  shows "s \<in> fst ` set sm \<Longrightarrow> rank sm s < n \<Longrightarrow> \<exists>t. pack n (linked_nodes enum sm) aggs s = Some t"
proof (induction n arbitrary: s)
  case 0
  then show ?case by simp
next
  case (Suc n)
  let ?nodes = "linked_nodes enum sm"
  let ?cs = "children_in (parents_of enum sm) s"
  have nd: "map_of ?nodes s = Some ((mk_node enum sm s)\<lparr>children := ?cs\<rparr>)"
    using Suc.prems(1) by (simp add: map_of_linked_nodes)
  from assms(2) Suc.prems(1) obtain am where am: "map_of aggs s = Some am" by auto
  have "\<forall>c \<in> set (sort_key casefold ?cs). pack n ?nodes aggs c = Some (the (pack n ?nodes aggs c))"
  proof
    fix c assume "c \<in> set (sort_key casefold ?cs)"
    then have c: "c \<in> set ?cs" by simp
    from child_below [OF assms(1) c] have k: "c \<in> fst ` set sm"
      and "proper_subset (members_of sm c) (members_of sm s)" by auto
    then have "rank sm c < rank sm s" by (simp add: rank_less)
    with Suc.prems(2) have "rank sm c < n" by simp
    from Suc.IH [OF k this] show "pack n ?nodes aggs c = Some (the (pack n ?nodes aggs c))" by auto
  qed
  from those_map_Some [OF this] nd am show ?case by simp
qed

lemma roots_of_natural:
  assumes "iteration_order enum"
  shows "roots_of sm [s \<leftarrow> map fst sm. choose_parent enum sm s = None] (map fst sm) =
         [s \<leftarrow> map fst sm. choose_parent enum sm s = None]"
proof (cases "sm = []")
  case True
  then show ?thesis by (simp add: roots_of_def)
next
  case False
  from natural_roots_nonempty [OF assms False] show ?thesis by (simp add: roots_of_def)
qed

lemma get_cell_tree_unfold:
  assumes "iteration_order enum"
  shows "\<exists>aggs cs.
           map fst aggs = map fst (catalog_index bios) \<and>
           (\<forall>s \<in> fst ` set (catalog_index bios).
              map_of aggs s = agg (length (map fst (catalog_index bios))) enum
                                (linked_nodes enum (catalog_index bios)) s \<and>
              map_of aggs s \<noteq> None) \<and>
           those (map (pack (length (map fst (catalog_index bios)))
                         (linked_nodes enum (catalog_index bios)) aggs)
                    (sort_key casefold
                       [s \<leftarrow> map fst (catalog_index bios).
                          choose_parent enum (catalog_index bios) s = None])) = Some cs \<and>
           get_cell_tree enum bios =
             Some \<lparr>ok = True,
                   tree = Tree ''SLIM::ROOT'' ''Cell types'' []
                            (sorted_set enum casefold (set_of (concat (map snd aggs)))) cs\<rparr>"
proof -
  let ?sm = "catalog_index bios"
  let ?nodes = "linked_nodes enum ?sm"
  let ?N = "length (map fst ?sm)"
  let ?roots = "[s \<leftarrow> map fst ?sm. choose_parent enum ?sm s = None]"
  let ?all = "set_of (concat (map (children_in (parents_of enum ?sm)) (map fst ?sm)))"
  have l: "link_children (parents_of enum ?sm) (build_nodes enum ?sm) = Some ?nodes"
    using assms distinct_catalog_index by (rule link_children_linked)
  have a: "all_children ?nodes (map fst ?sm) = Some ?all" by (rule all_children_linked)
  have n: "natural_roots (parents_of enum ?sm) ?all (map fst ?sm) = ?roots"
    by (rule natural_roots_linked)
  have r: "roots_of ?sm ?roots (map fst ?sm) = ?roots" using assms by (rule roots_of_natural)
  from aggregate_all_linked [OF assms, of ?sm] obtain aggs where
    g: "aggregate_all ?N enum ?nodes (map fst ?sm) = Some aggs"
    and f: "map fst aggs = map fst ?sm"
    and m: "\<forall>s \<in> fst ` set ?sm. map_of aggs s = agg ?N enum ?nodes s \<and> map_of aggs s \<noteq> None"
    by blast
  from m have m': "\<forall>s \<in> fst ` set ?sm. map_of aggs s \<noteq> None" by blast
  have "\<forall>s \<in> set (sort_key casefold ?roots).
          pack ?N ?nodes aggs s = Some (the (pack ?N ?nodes aggs s))"
  proof
    fix s assume "s \<in> set (sort_key casefold ?roots)"
    then have k: "s \<in> fst ` set ?sm" by auto
    have "rank ?sm s < ?N" using rank_bound [OF k] by simp
    from pack_linked_total [OF assms m' k this]
    show "pack ?N ?nodes aggs s = Some (the (pack ?N ?nodes aggs s))" by auto
  qed
  from those_map_Some [OF this] obtain cs where
    p: "those (map (pack ?N ?nodes aggs) (sort_key casefold ?roots)) = Some cs" by blast
  have "get_cell_tree enum bios =
          Some \<lparr>ok = True,
                tree = Tree ''SLIM::ROOT'' ''Cell types'' []
                         (sorted_set enum casefold (set_of (concat (map snd aggs)))) cs\<rparr>"
    using l a n r g p
    unfolding get_cell_tree_def Let_def catalog_index_def by simp
  with f m p show ?thesis by blast
qed

lemma tree_nodes_unfold: "tree_nodes t = t # concat (map tree_nodes (tree_children t))"
  by (cases t) simp

lemma agg_sorted_distinct:
  assumes "iteration_order enum" and "agg n enum nodes s = Some r"
  shows "sorted (map casefold r) \<and> distinct r"
proof (cases n)
  case 0
  with assms(2) show ?thesis by simp
next
  case (Suc m)
  with assms(2) obtain nd where "map_of nodes s = Some nd" by (auto split: option.splits)
  from agg_step [OF assms(1) assms(2) [unfolded Suc] this] show ?thesis by blast
qed

lemma pack_Suc:
  assumes "pack (Suc n) nodes aggs s = Some t"
  shows "\<exists>nd am. map_of nodes s = Some nd \<and> map_of aggs s = Some am \<and>
           map (pack n nodes aggs) (sort_key casefold (children nd)) = map Some (tree_children t) \<and>
           t = Tree (node_id nd) (label nd) (members nd) am (tree_children t)"
  using assms by (auto split: option.splits simp: those_eq_Some)

lemma pack_linked_label:
  assumes "pack n (linked_nodes enum sm) aggs s = Some t"
  shows "tree_label t = s \<and> tree_id t = ''SLIM::'' @ s \<and> s \<in> fst ` set sm \<and>
         tree_members t = sorted_set enum casefold (members_of sm s) \<and>
         map_of aggs s = Some (tree_aggregate_members t)"
proof (cases n)
  case 0
  with assms show ?thesis by simp
next
  case (Suc m)
  from pack_Suc [OF assms [unfolded Suc]] obtain nd am where
    nd: "map_of (linked_nodes enum sm) s = Some nd" and am: "map_of aggs s = Some am"
    and t: "t = Tree (node_id nd) (label nd) (members nd) am (tree_children t)" by blast
  from nd have k: "s \<in> fst ` set sm"
    and e: "nd = (mk_node enum sm s)\<lparr>children := children_in (parents_of enum sm) s\<rparr>"
    by (auto simp: map_of_linked_nodes split: if_splits)
  have "tree_label t = label nd" "tree_id t = node_id nd" "tree_members t = members nd"
    "tree_aggregate_members t = am"
    by (subst t, simp)+
  with e k am show ?thesis by (simp add: mk_node_def)
qed

lemma pack_children_labels:
  assumes "pack (Suc n) (linked_nodes enum sm) aggs s = Some t"
  shows "map tree_label (tree_children t) = sort_key casefold (children_in (parents_of enum sm) s) \<and>
         (\<forall>u \<in> set (tree_children t).
            pack n (linked_nodes enum sm) aggs (tree_label u) = Some u \<and>
            tree_label u \<in> set (children_in (parents_of enum sm) s))"
proof -
  let ?nodes = "linked_nodes enum sm"
  from pack_Suc [OF assms] obtain nd where
    nd: "map_of ?nodes s = Some nd"
    and m: "map (pack n ?nodes aggs) (sort_key casefold (children nd)) = map Some (tree_children t)"
    by blast
  from nd have e: "children nd = children_in (parents_of enum sm) s"
    by (auto simp: map_of_linked_nodes split: if_splits)
  let ?cs = "sort_key casefold (children_in (parents_of enum sm) s)"
  from m e have m': "map (pack n ?nodes aggs) ?cs = map Some (tree_children t)" by simp
  then have len: "length ?cs = length (tree_children t)" by (metis length_map)
  have pt: "pack n ?nodes aggs (?cs ! i) = Some (tree_children t ! i)" if "i < length ?cs" for i
    using m' that len by (metis nth_map)
  have lab: "tree_label (tree_children t ! i) = ?cs ! i" if "i < length ?cs" for i
    using pack_linked_label [OF pt [OF that]] by simp
  have eq: "map tree_label (tree_children t) = ?cs"
    by (rule nth_equalityI) (use len lab in auto)
  have "\<forall>u \<in> set (tree_children t). pack n ?nodes aggs (tree_label u) = Some u \<and>
            tree_label u \<in> set (children_in (parents_of enum sm) s)"
  proof
    fix u assume "u \<in> set (tree_children t)"
    then obtain i where i: "i < length (tree_children t)" and u: "u = tree_children t ! i"
      by (auto simp: in_set_conv_nth)
    with len lab pt have "tree_label u = ?cs ! i" "pack n ?nodes aggs (?cs ! i) = Some u" by auto
    moreover have "?cs ! i \<in> set ?cs" using i len by (metis nth_mem)
    moreover have "set ?cs = set (children_in (parents_of enum sm) s)" by simp
    ultimately show "pack n ?nodes aggs (tree_label u) = Some u \<and>
            tree_label u \<in> set (children_in (parents_of enum sm) s)" by metis
  qed
  with eq show ?thesis by blast
qed

lemma setdefault_add_distinct_values:
  "\<forall>(k, v) \<in> set d. distinct v \<Longrightarrow> \<forall>(k, v) \<in> set (setdefault_add slim name d). distinct v"
  by (induction d) (auto simp: set_add_def split: if_splits)

lemma fold_slims_distinct_values:
  "\<forall>(k, v) \<in> set d. distinct v \<Longrightarrow>
   \<forall>(k, v) \<in> set (fold (\<lambda>slim d. setdefault_add slim name d) slims d). distinct v"
proof (induction slims arbitrary: d)
  case Nil
  then show ?case by simp
next
  case (Cons a slims)
  from setdefault_add_distinct_values [OF Cons.prems]
  have "\<forall>(k, v) \<in> set (setdefault_add a name d). distinct v" .
  from Cons.IH [OF this] show ?case by simp
qed

lemma fold_terms_distinct_values:
  "\<forall>(k, v) \<in> set d. distinct v \<Longrightarrow>
   \<forall>(k, v) \<in> set (fold (\<lambda>t d. fold (\<lambda>slim d. setdefault_add slim (term_name t) d) (cell_slims t) d) ts d).
      distinct v"
proof (induction ts arbitrary: d)
  case Nil
  then show ?case by simp
next
  case (Cons t ts)
  from fold_slims_distinct_values [OF Cons.prems]
  have "\<forall>(k, v) \<in> set (fold (\<lambda>slim d. setdefault_add slim (term_name t) d) (cell_slims t) d). distinct v" .
  from Cons.IH [OF this] show ?case by simp
qed

lemma slim_buckets_distinct_values: "\<forall>(k, v) \<in> set (slim_buckets ts). distinct v"
proof -
  have "\<forall>(k, v) \<in> set ([] :: slim_index). distinct v" by simp
  from fold_terms_distinct_values [OF this, of ts] show ?thesis
    unfolding slim_buckets_def Let_def by auto
qed

lemma distinct_members_of: "\<forall>(k, v) \<in> set sm. distinct v \<Longrightarrow> distinct (members_of sm s)"
proof -
  assume a: "\<forall>(k, v) \<in> set sm. distinct v"
  show ?thesis
  proof (cases "map_of sm s")
    case None
    then show ?thesis by (simp add: members_of_def)
  next
    case (Some v)
    then have "(s, v) \<in> set sm" by (rule map_of_SomeD)
    with a Some show ?thesis by (auto simp: members_of_def)
  qed
qed

lemma distinct_members_of_catalog: "distinct (members_of (catalog_index bios) s)"
  using slim_buckets_distinct_values [of "load_terms bios"]
  unfolding catalog_index_def by (rule distinct_members_of)

lemma pack_shaped:
  assumes "iteration_order enum"
    and "\<forall>s \<in> fst ` set sm. map_of aggs s = agg N enum (linked_nodes enum sm) s"
    and "\<forall>(k, v) \<in> set sm. distinct v"
  shows "pack n (linked_nodes enum sm) aggs s = Some t \<Longrightarrow> \<forall>u \<in> set (tree_nodes t). shaped u"
proof (induction n arbitrary: s t)
  case 0
  then show ?case by simp
next
  case (Suc n)
  let ?nodes = "linked_nodes enum sm"
  from pack_linked_label [OF Suc.prems] have
    id: "tree_id t = ''SLIM::'' @ tree_label t" and k: "s \<in> fst ` set sm"
    and mem: "tree_members t = sorted_set enum casefold (members_of sm s)"
    and am: "map_of aggs s = Some (tree_aggregate_members t)" by auto
  have m1: "sorted (map casefold (tree_members t))" unfolding mem by (rule sorted_sorted_set)
  have m2: "distinct (tree_members t)"
    unfolding mem using assms(1,3) by (simp add: distinct_sorted_set distinct_members_of)
  from am assms(2) k have "agg N enum ?nodes s = Some (tree_aggregate_members t)" by simp
  from agg_sorted_distinct [OF assms(1) this]
  have a1: "sorted (map casefold (tree_aggregate_members t))"
    and a2: "distinct (tree_aggregate_members t)" by auto
  from pack_children_labels [OF Suc.prems] have
    cl: "map tree_label (tree_children t) = sort_key casefold (children_in (parents_of enum sm) s)"
    and cp: "\<forall>u \<in> set (tree_children t). pack n ?nodes aggs (tree_label u) = Some u" by auto
  have c1: "sorted (map casefold (map tree_label (tree_children t)))"
    unfolding cl by (rule sorted_sort_key)
  have top: "shaped t" using id m1 m2 a1 a2 c1 by (simp add: shaped_def)
  have sub: "\<forall>u \<in> set (tree_children t). \<forall>w \<in> set (tree_nodes u). shaped w"
    using cp Suc.IH by blast
  show ?case
    by (subst tree_nodes_unfold) (use top sub in auto)
qed

lemma pack_list:
  assumes "map (pack n (linked_nodes enum sm) aggs) xs = map Some ts"
  shows "map tree_label ts = xs \<and>
         (\<forall>u \<in> set ts. pack n (linked_nodes enum sm) aggs (tree_label u) = Some u \<and>
                        tree_label u \<in> set xs)"
  using assms
proof (induction xs arbitrary: ts)
  case Nil
  then show ?case by simp
next
  case (Cons x xs)
  from Cons.prems obtain u us where ts: "ts = u # us"
    and u: "pack n (linked_nodes enum sm) aggs x = Some u"
    and us: "map (pack n (linked_nodes enum sm) aggs) xs = map Some us"
    by (cases ts) auto
  from pack_linked_label [OF u] have "tree_label u = x" by simp
  with Cons.IH [OF us] ts u show ?case by auto
qed

lemma single_valued_parent_rel: "single_valued (parent_rel enum sm)"
  by (simp add: single_valued_def parent_rel_def)

lemma parent_proper:
  "iteration_order enum \<Longrightarrow> (c, p) \<in> parent_rel enum sm \<Longrightarrow>
     proper_subset (members_of sm c) (members_of sm p)"
  unfolding parent_rel_def
  using choose_parent_Some minimal_supersets_strict by blast

lemma below_subset:
  assumes "iteration_order enum" and "(l, s) \<in> (parent_rel enum sm)\<^sup>*"
  shows "set (members_of sm l) \<subseteq> set (members_of sm s)"
  using assms(2)
proof (induction rule: rtrancl_induct)
  case base
  then show ?case by simp
next
  case (step y z)
  from parent_proper [OF assms(1) step.hyps(2)] step.IH show ?case
    by (auto simp: proper_subset_def)
qed

lemma no_common_descendant:
  assumes "iteration_order enum"
    and "(l, c1) \<in> (parent_rel enum sm)\<^sup>*" and "(l, c2) \<in> (parent_rel enum sm)\<^sup>*"
    and "c1 \<noteq> c2" and "choose_parent enum sm c1 = choose_parent enum sm c2"
  shows False
proof -
  let ?P = "parent_rel enum sm"
  have one: False if r: "(a, b) \<in> ?P\<^sup>*" and ne: "a \<noteq> b"
    and eq: "choose_parent enum sm a = choose_parent enum sm b" for a b
  proof -
    from r ne obtain z where az: "(a, z) \<in> ?P" and zb: "(z, b) \<in> ?P\<^sup>*"
      by (auto elim: converse_rtranclE)
    from az eq have "(b, z) \<in> ?P" by (simp add: parent_rel_def)
    from parent_proper [OF assms(1) this] below_subset [OF assms(1) zb]
    show False by (auto simp: proper_subset_def)
  qed
  from single_valued_confluent [OF single_valued_parent_rel assms(2,3)]
  have "(c1, c2) \<in> ?P\<^sup>* \<or> (c2, c1) \<in> ?P\<^sup>*" .
  then show False
  proof
    assume "(c1, c2) \<in> ?P\<^sup>*"
    from one [OF this assms(4,5)] show False .
  next
    assume "(c2, c1) \<in> ?P\<^sup>*"
    from one [OF this] assms(4,5) show False by simp
  qed
qed

lemma pack_labels_below:
  "pack n (linked_nodes enum sm) aggs s = Some t \<Longrightarrow>
   \<forall>u \<in> set (tree_nodes t). (tree_label u, s) \<in> (parent_rel enum sm)\<^sup>*"
proof (induction n arbitrary: s t)
  case 0
  then show ?case by simp
next
  case (Suc n)
  let ?P = "parent_rel enum sm"
  from pack_linked_label [OF Suc.prems] have top: "tree_label t = s" by simp
  from pack_children_labels [OF Suc.prems] have
    cp: "\<forall>u \<in> set (tree_children t).
            pack n (linked_nodes enum sm) aggs (tree_label u) = Some u \<and>
            tree_label u \<in> set (children_in (parents_of enum sm) s)" by simp
  have "(tree_label w, s) \<in> ?P\<^sup>*" if u: "u \<in> set (tree_children t)" and w: "w \<in> set (tree_nodes u)" for u w
  proof -
    from cp u have p: "pack n (linked_nodes enum sm) aggs (tree_label u) = Some u"
      and c: "tree_label u \<in> set (children_in (parents_of enum sm) s)" by auto
    from Suc.IH [OF p] w have 1: "(tree_label w, tree_label u) \<in> ?P\<^sup>*" by blast
    from c have "(tree_label u, s) \<in> ?P" by (simp add: children_in_parents_of parent_rel_def)
    with 1 show ?thesis by (rule rtrancl_into_rtrancl)
  qed
  then show ?case
    by (subst tree_nodes_unfold) (use top in auto)
qed

lemma distinct_forest:
  assumes "distinct (map tree_label us)"
    and "\<forall>u \<in> set us. distinct (map tree_label (tree_nodes u))"
    and "\<forall>u \<in> set us. \<forall>v \<in> set us. tree_label u \<noteq> tree_label v \<longrightarrow>
           set (map tree_label (tree_nodes u)) \<inter> set (map tree_label (tree_nodes v)) = {}"
  shows "distinct (map tree_label (concat (map tree_nodes us)))"
  using assms
proof (induction us)
  case Nil
  then show ?case by simp
next
  case (Cons u us)
  have rest: "distinct (map tree_label (concat (map tree_nodes us)))"
    using Cons by auto
  have "set (map tree_label (tree_nodes u)) \<inter> set (map tree_label (concat (map tree_nodes us))) = {}"
  proof -
    have "set (map tree_label (tree_nodes u)) \<inter> set (map tree_label (tree_nodes v)) = {}"
      if "v \<in> set us" for v
    proof -
      from Cons.prems(1) that have "tree_label u \<noteq> tree_label v" by auto
      with Cons.prems(3) that show ?thesis by auto
    qed
    then show ?thesis by auto
  qed
  with rest Cons.prems(2) show ?case by auto
qed

lemma distinct_children_in:
  "distinct (map fst sm) \<Longrightarrow> distinct (children_in (parents_of enum sm) s)"
proof -
  assume d: "distinct (map fst sm)"
  have "map fst (parents_of enum sm) = map fst sm" by (simp add: parents_of_def comp_def)
  with d have "distinct (map fst (parents_of enum sm))" by simp
  then show ?thesis unfolding children_in_def by (rule distinct_map_filter)
qed

lemma pack_distinct_labels:
  assumes "iteration_order enum" and "distinct (map fst sm)"
  shows "pack n (linked_nodes enum sm) aggs s = Some t \<Longrightarrow> distinct (map tree_label (tree_nodes t))"
proof (induction n arbitrary: s t)
  case 0
  then show ?case by simp
next
  case (Suc n)
  let ?P = "parent_rel enum sm"
  let ?nodes = "linked_nodes enum sm"
  from pack_linked_label [OF Suc.prems] have top: "tree_label t = s" by simp
  from pack_children_labels [OF Suc.prems] have
    cl: "map tree_label (tree_children t) = sort_key casefold (children_in (parents_of enum sm) s)"
    and cp: "\<forall>u \<in> set (tree_children t).
            pack n ?nodes aggs (tree_label u) = Some u \<and>
            tree_label u \<in> set (children_in (parents_of enum sm) s)" by auto
  have par: "(tree_label u, s) \<in> ?P" if "u \<in> set (tree_children t)" for u
    using cp that by (simp add: children_in_parents_of parent_rel_def)
  have d1: "distinct (map tree_label (tree_children t))"
    unfolding cl using distinct_children_in [OF assms(2)] by simp
  have d2: "\<forall>u \<in> set (tree_children t). distinct (map tree_label (tree_nodes u))"
    using cp Suc.IH by blast
  have d3: "\<forall>u \<in> set (tree_children t). \<forall>v \<in> set (tree_children t).
              tree_label u \<noteq> tree_label v \<longrightarrow>
              set (map tree_label (tree_nodes u)) \<inter> set (map tree_label (tree_nodes v)) = {}"
  proof (intro ballI impI)
    fix u v assume u: "u \<in> set (tree_children t)" and v: "v \<in> set (tree_children t)"
      and ne: "tree_label u \<noteq> tree_label v"
    show "set (map tree_label (tree_nodes u)) \<inter> set (map tree_label (tree_nodes v)) = {}"
    proof (rule ccontr)
      assume "set (map tree_label (tree_nodes u)) \<inter> set (map tree_label (tree_nodes v)) \<noteq> {}"
      then obtain l where lu: "l \<in> set (map tree_label (tree_nodes u))"
        and lv: "l \<in> set (map tree_label (tree_nodes v))" by blast
      from cp u have pu: "pack n ?nodes aggs (tree_label u) = Some u" by simp
      from cp v have pv: "pack n ?nodes aggs (tree_label v) = Some v" by simp
      from pack_labels_below [OF pu] lu have 1: "(l, tree_label u) \<in> ?P\<^sup>*" by auto
      from pack_labels_below [OF pv] lv have 2: "(l, tree_label v) \<in> ?P\<^sup>*" by auto
      from par [OF u] par [OF v]
      have "choose_parent enum sm (tree_label u) = choose_parent enum sm (tree_label v)"
        by (simp add: parent_rel_def)
      from no_common_descendant [OF assms(1) 1 2 ne this] show False .
    qed
  qed
  have sub: "distinct (map tree_label (concat (map tree_nodes (tree_children t))))"
    using d1 d2 d3 by (rule distinct_forest)
  have notin: "s \<notin> set (map tree_label (concat (map tree_nodes (tree_children t))))"
  proof
    assume "s \<in> set (map tree_label (concat (map tree_nodes (tree_children t))))"
    then obtain u w where u: "u \<in> set (tree_children t)" and w: "w \<in> set (tree_nodes u)"
      and sw: "s = tree_label w" by auto
    from cp u have pu: "pack n ?nodes aggs (tree_label u) = Some u" by simp
    from pack_labels_below [OF pu] w sw have "(s, tree_label u) \<in> ?P\<^sup>*" by auto
    from below_subset [OF assms(1) this] parent_proper [OF assms(1) par [OF u]]
    show False by (auto simp: proper_subset_def)
  qed
  show ?case
    by (subst tree_nodes_unfold) (use top sub notin in simp)
qed

lemma output_forest:
  assumes "iteration_order enum"
    and "\<forall>s \<in> fst ` set (catalog_index bios).
           map_of aggs s = agg N enum (linked_nodes enum (catalog_index bios)) s"
    and "those (map (pack n (linked_nodes enum (catalog_index bios)) aggs)
                  (sort_key casefold
                     [s \<leftarrow> map fst (catalog_index bios).
                        choose_parent enum (catalog_index bios) s = None])) = Some cs"
  shows "sorted (map casefold (map tree_label cs)) \<and>
         (\<forall>u \<in> set (concat (map tree_nodes cs)). shaped u) \<and>
         distinct (map tree_label (concat (map tree_nodes cs)))"
proof -
  let ?sm = "catalog_index bios"
  let ?nodes = "linked_nodes enum ?sm"
  let ?P = "parent_rel enum ?sm"
  let ?roots = "[s \<leftarrow> map fst ?sm. choose_parent enum ?sm s = None]"
  have dk: "distinct (map fst ?sm)" by (rule distinct_catalog_index)
  have dv: "\<forall>(k, v) \<in> set ?sm. distinct v"
    unfolding catalog_index_def by (rule slim_buckets_distinct_values)
  from assms(3) have "map (pack n ?nodes aggs) (sort_key casefold ?roots) = map Some cs"
    by (simp add: those_eq_Some)
  from pack_list [OF this] have
    cl: "map tree_label cs = sort_key casefold ?roots"
    and cp: "\<forall>u \<in> set cs. pack n ?nodes aggs (tree_label u) = Some u \<and>
                            tree_label u \<in> set (sort_key casefold ?roots)" by auto
  have root: "choose_parent enum ?sm (tree_label u) = None" if "u \<in> set cs" for u
    using cp that by auto
  have s1: "sorted (map casefold (map tree_label cs))" unfolding cl by (rule sorted_sort_key)
  have s2: "\<forall>u \<in> set (concat (map tree_nodes cs)). shaped u"
    using cp pack_shaped [OF assms(1,2) dv] by auto
  have d1: "distinct (map tree_label cs)" unfolding cl using dk by simp
  have d2: "\<forall>u \<in> set cs. distinct (map tree_label (tree_nodes u))"
    using cp pack_distinct_labels [OF assms(1) dk] by blast
  have d3: "\<forall>u \<in> set cs. \<forall>v \<in> set cs. tree_label u \<noteq> tree_label v \<longrightarrow>
              set (map tree_label (tree_nodes u)) \<inter> set (map tree_label (tree_nodes v)) = {}"
  proof (intro ballI impI)
    fix u v assume u: "u \<in> set cs" and v: "v \<in> set cs" and ne: "tree_label u \<noteq> tree_label v"
    show "set (map tree_label (tree_nodes u)) \<inter> set (map tree_label (tree_nodes v)) = {}"
    proof (rule ccontr)
      assume "set (map tree_label (tree_nodes u)) \<inter> set (map tree_label (tree_nodes v)) \<noteq> {}"
      then obtain l where lu: "l \<in> set (map tree_label (tree_nodes u))"
        and lv: "l \<in> set (map tree_label (tree_nodes v))" by blast
      from cp u have pu: "pack n ?nodes aggs (tree_label u) = Some u" by simp
      from cp v have pv: "pack n ?nodes aggs (tree_label v) = Some v" by simp
      from pack_labels_below [OF pu] lu have 1: "(l, tree_label u) \<in> ?P\<^sup>*" by auto
      from pack_labels_below [OF pv] lv have 2: "(l, tree_label v) \<in> ?P\<^sup>*" by auto
      have "choose_parent enum ?sm (tree_label u) = choose_parent enum ?sm (tree_label v)"
        using root [OF u] root [OF v] by simp
      from no_common_descendant [OF assms(1) 1 2 ne this] show False .
    qed
  qed
  from d1 d2 d3 have "distinct (map tree_label (concat (map tree_nodes cs)))"
    by (rule distinct_forest)
  with s1 s2 show ?thesis by blast
qed

lemma shaped_ids:
  assumes "\<forall>u \<in> set us. shaped u"
  shows "map tree_id us = map (\<lambda>l. ''SLIM::'' @ l) (map tree_label us)"
  using assms by (induction us) (auto simp: shaped_def)

section \<open>The tie-break\<close>

text \<open>
  Claim C4 (parent tie-break). A slim whose set of minimal strict supersets is not empty
  gets exactly one parent; the parent is a minimal candidate whose member set has the
  fewest elements, and among the minimal candidates with that number of members its
  case-folded label is least.
\<close>

theorem parent_tie_break:
  assumes "iteration_order enum"
    and "a \<in> set (map fst (catalog_index bios))"
    and "minimal_supersets (catalog_index bios) a \<noteq> []"
  shows "\<exists>p. parents_get (parents_of enum (catalog_index bios)) a = Some p \<and>
             (\<forall>r. (a, r) \<in> set (parents_of enum (catalog_index bios)) \<longrightarrow> r = Some p) \<and>
             p \<in> set (minimal_supersets (catalog_index bios) a) \<and>
             (\<forall>m \<in> set (minimal_supersets (catalog_index bios) a).
                card (set (members_of (catalog_index bios) p))
                  < card (set (members_of (catalog_index bios) m)) \<or>
                (card (set (members_of (catalog_index bios) p))
                   = card (set (members_of (catalog_index bios) m)) \<and>
                 casefold p \<le> casefold m))"
proof -
  let ?sm = "catalog_index bios"
  have sz: "sizes ?sm s = card (set (members_of ?sm s))" for s
    unfolding sizes_def using distinct_card [OF distinct_members_of_catalog] by simp
  from assms(3) have "strict_supersets ?sm a \<noteq> []" by (simp add: minimal_supersets_Nil)
  with assms(1) obtain p where p: "choose_parent enum ?sm a = Some p"
    using choose_parent_None by fastforce
  from choose_parent_Some [OF assms(1) p]
  have m: "p \<in> set (minimal_supersets ?sm a)"
    and k: "\<forall>m \<in> set (minimal_supersets ?sm a). parent_key ?sm p \<le> parent_key ?sm m" by auto
  have "parents_get (parents_of enum ?sm) a = Some p"
    using assms(2) p by (simp add: parents_get_parents_of)
  moreover have "\<forall>r. (a, r) \<in> set (parents_of enum ?sm) \<longrightarrow> r = Some p"
    using p by (simp add: in_parents_of)
  moreover have "\<forall>m \<in> set (minimal_supersets ?sm a).
      card (set (members_of ?sm p)) < card (set (members_of ?sm m)) \<or>
      (card (set (members_of ?sm p)) = card (set (members_of ?sm m)) \<and> casefold p \<le> casefold m)"
    using k unfolding parent_key_def sz by (auto simp: less_eq_prod_def)
  ultimately show ?thesis using m by blast
qed

theorem parent_tie_break_witness:
  "iteration_order rev \<and> ''x'' \<in> set (map fst (catalog_index tie_catalog)) \<and>
   set (minimal_supersets (catalog_index tie_catalog) ''x'') = {''y2'', ''Y1''} \<and>
   parents_get (parents_of rev (catalog_index tie_catalog)) ''x'' = Some ''Y1'' \<and>
   ''x'' \<in> set (map fst (catalog_index size_catalog)) \<and>
   set (minimal_supersets (catalog_index size_catalog) ''x'') = {''z'', ''a''} \<and>
   parents_get (parents_of rev (catalog_index size_catalog)) ''x'' = Some ''z''"
proof -
  have h1: "iteration_order rev" by (simp add: iteration_order_def)
  have h2: "''x'' \<in> set (map fst (catalog_index tie_catalog))" by code_simp
  have h3: "minimal_supersets (catalog_index tie_catalog) ''x'' = [''y2'', ''Y1'']" by code_simp
  then have h4: "minimal_supersets (catalog_index tie_catalog) ''x'' \<noteq> []" by simp
  have c: "casefold ''Y1'' \<le> casefold ''y2'' \<and> \<not> casefold ''y2'' \<le> casefold ''Y1''" by code_simp
  have s: "card (set (members_of (catalog_index tie_catalog) ''y2'')) = 3 \<and>
           card (set (members_of (catalog_index tie_catalog) ''Y1'')) = 3"
    by code_simp
  from parent_tie_break [OF h1 h2 h4] obtain p where
    p: "parents_get (parents_of rev (catalog_index tie_catalog)) ''x'' = Some p"
    and pm: "p \<in> set (minimal_supersets (catalog_index tie_catalog) ''x'')"
    and pk: "\<forall>m \<in> set (minimal_supersets (catalog_index tie_catalog) ''x'').
                card (set (members_of (catalog_index tie_catalog) p))
                  < card (set (members_of (catalog_index tie_catalog) m)) \<or>
                (card (set (members_of (catalog_index tie_catalog) p))
                   = card (set (members_of (catalog_index tie_catalog) m)) \<and>
                 casefold p \<le> casefold m)"
    by blast
  from pm h3 have "p = ''y2'' \<or> p = ''Y1''" by simp
  moreover have "p \<noteq> ''y2''"
  proof
    assume "p = ''y2''"
    with pk h3 s c show False by simp
  qed
  ultimately have t: "p = ''Y1''" by blast
  have g2: "''x'' \<in> set (map fst (catalog_index size_catalog))" by code_simp
  have g3: "minimal_supersets (catalog_index size_catalog) ''x'' = [''z'', ''a'']" by code_simp
  then have g4: "minimal_supersets (catalog_index size_catalog) ''x'' \<noteq> []" by simp
  have z: "card (set (members_of (catalog_index size_catalog) ''z'')) = 2 \<and>
           card (set (members_of (catalog_index size_catalog) ''a'')) = 3"
    by code_simp
  from parent_tie_break [OF h1 g2 g4] obtain q where
    q: "parents_get (parents_of rev (catalog_index size_catalog)) ''x'' = Some q"
    and qm: "q \<in> set (minimal_supersets (catalog_index size_catalog) ''x'')"
    and qk: "\<forall>m \<in> set (minimal_supersets (catalog_index size_catalog) ''x'').
                card (set (members_of (catalog_index size_catalog) q))
                  < card (set (members_of (catalog_index size_catalog) m)) \<or>
                (card (set (members_of (catalog_index size_catalog) q))
                   = card (set (members_of (catalog_index size_catalog) m)) \<and>
                 casefold q \<le> casefold m)"
    by blast
  from qm g3 have "q = ''z'' \<or> q = ''a''" by simp
  moreover have "q \<noteq> ''a''"
  proof
    assume "q = ''a''"
    with qk g3 z show False by simp
  qed
  ultimately have "q = ''z''" by blast
  with q t p h1 h2 h3 g2 g3 show ?thesis by simp
qed

section \<open>The shape of the output\<close>

text \<open>
  Claim C8 asks, among other things, that the ids of the nodes of an output tree are
  unique. A slim with the label \<open>ROOT\<close> gets the id \<open>SLIM::ROOT\<close> of the synthetic root:
  in the tree of the catalog below two nodes have the same id.
\<close>

theorem root_id_clash:
  "map_option (\<lambda>r. distinct (map tree_id (tree_nodes (tree r))))
     (get_cell_tree (\<lambda>s. s) root_label_catalog) = Some False"
  by code_simp

text \<open>
  Claim C8, amended. The builder returns a tree. Its root has the id \<open>SLIM::ROOT\<close>, the
  label \<open>Cell types\<close> and no members. The id of every slim node is \<open>SLIM::\<close> followed by
  its label, and the ids of the slim nodes are pairwise different; the id of the root is
  also the id of a slim node exactly when a slim node has the label \<open>ROOT\<close>. Every list of
  members and of aggregate members is sorted case-insensitively and has no duplicates,
  and every list of children is sorted case-insensitively by label.
\<close>

theorem output_shape:
  assumes "iteration_order enum"
  shows "\<exists>r. get_cell_tree enum bios = Some r \<and>
           tree_id (tree r) = ''SLIM::ROOT'' \<and> tree_label (tree r) = ''Cell types'' \<and>
           tree_members (tree r) = [] \<and>
           sorted (map casefold (tree_aggregate_members (tree r))) \<and>
           distinct (tree_aggregate_members (tree r)) \<and>
           sorted (map casefold (map tree_label (tree_children (tree r)))) \<and>
           (\<forall>u \<in> set (slim_nodes (tree r)). shaped u) \<and>
           distinct (map tree_id (slim_nodes (tree r))) \<and>
           (tree_id (tree r) \<in> set (map tree_id (slim_nodes (tree r))) \<longleftrightarrow>
              ''ROOT'' \<in> set (map tree_label (slim_nodes (tree r))))"
proof -
  let ?sm = "catalog_index bios"
  from get_cell_tree_unfold [OF assms, of bios] obtain aggs cs where
    m: "\<forall>s \<in> fst ` set ?sm.
          map_of aggs s = agg (length (map fst ?sm)) enum (linked_nodes enum ?sm) s \<and>
          map_of aggs s \<noteq> None"
    and p: "those (map (pack (length (map fst ?sm)) (linked_nodes enum ?sm) aggs)
                  (sort_key casefold [s \<leftarrow> map fst ?sm. choose_parent enum ?sm s = None])) = Some cs"
    and g: "get_cell_tree enum bios =
             Some \<lparr>ok = True,
                   tree = Tree ''SLIM::ROOT'' ''Cell types'' []
                            (sorted_set enum casefold (set_of (concat (map snd aggs)))) cs\<rparr>"
    by blast
  let ?t = "Tree ''SLIM::ROOT'' ''Cell types'' []
              (sorted_set enum casefold (set_of (concat (map snd aggs)))) cs"
  from m have m': "\<forall>s \<in> fst ` set ?sm.
          map_of aggs s = agg (length (map fst ?sm)) enum (linked_nodes enum ?sm) s" by blast
  from output_forest [OF assms m' p] have
    s1: "sorted (map casefold (map tree_label cs))"
    and s2: "\<forall>u \<in> set (concat (map tree_nodes cs)). shaped u"
    and d: "distinct (map tree_label (concat (map tree_nodes cs)))" by auto
  have sn: "slim_nodes ?t = concat (map tree_nodes cs)" by (simp add: slim_nodes_def)
  have a1: "sorted (map casefold (tree_aggregate_members ?t))" by (simp add: sorted_sorted_set)
  have a2: "distinct (tree_aggregate_members ?t)"
    using assms by (simp add: distinct_sorted_set)
  have ids: "map tree_id (slim_nodes ?t) = map (\<lambda>l. ''SLIM::'' @ l) (map tree_label (slim_nodes ?t))"
    unfolding sn using s2 by (rule shaped_ids)
  have dl: "distinct (map tree_label (slim_nodes ?t))" unfolding sn by (rule d)
  have inj: "inj_on (\<lambda>l. ''SLIM::'' @ l) (set (map tree_label (slim_nodes ?t)))"
    by (rule inj_onI) simp
  have di: "distinct (map tree_id (slim_nodes ?t))"
    unfolding ids using dl inj by (subst distinct_map) blast
  have cl: "tree_id ?t \<in> set (map tree_id (slim_nodes ?t)) \<longleftrightarrow>
              ''ROOT'' \<in> set (map tree_label (slim_nodes ?t))"
    unfolding ids by auto
  show ?thesis
    using g s1 s2 a1 a2 di cl unfolding sn [symmetric]
    by (intro exI [of _ "\<lparr>ok = True, tree = ?t\<rparr>"]) simp
qed

theorem output_shape_witness:
  "iteration_order rev \<and>
   (\<exists>r. get_cell_tree rev chain_catalog = Some r \<and>
      (\<forall>u \<in> set (slim_nodes (tree r)). shaped u) \<and>
      distinct (map tree_id (slim_nodes (tree r))))"
proof -
  have h: "iteration_order rev" by (simp add: iteration_order_def)
  from output_shape [OF h, of chain_catalog] h show ?thesis by blast
qed

section \<open>Records without slims\<close>

lemma load_terms_eq: "load_terms bios = map to_term [b \<leftarrow> bios. \<not> spec_excluded b]"
  by (induction bios)
    (auto simp: spec_excluded_def to_term_def or_else_def Let_def split: option.splits)

lemma fold_skip:
  assumes "\<forall>t \<in> set ts. \<not> P t \<longrightarrow> F t = (\<lambda>d. d)"
  shows "fold F ts d = fold F (filter P ts) d"
  using assms by (induction ts arbitrary: d) auto

lemma slim_buckets_skip: "slim_buckets ts = slim_buckets [t \<leftarrow> ts. cell_slims t \<noteq> []]"
proof -
  let ?F = "\<lambda>t d. fold (\<lambda>slim d. setdefault_add slim (term_name t) d) (cell_slims t) d"
  have "\<forall>t \<in> set ts. \<not> cell_slims t \<noteq> [] \<longrightarrow> ?F t = (\<lambda>d. d)" by auto
  from fold_skip [OF this] show ?thesis unfolding slim_buckets_def by simp
qed

lemma catalog_index_skip:
  "catalog_index bios = catalog_index [b \<leftarrow> bios. or_else (raw_cell_slims b) \<noteq> []]"
proof -
  have "[t \<leftarrow> load_terms bios. cell_slims t \<noteq> []] =
        [t \<leftarrow> load_terms [b \<leftarrow> bios. or_else (raw_cell_slims b) \<noteq> []]. cell_slims t \<noteq> []]"
    unfolding load_terms_eq by (induction bios) (auto simp: to_term_def)
  then show ?thesis
    unfolding catalog_index_def
    using slim_buckets_skip [of "load_terms bios"]
      slim_buckets_skip [of "load_terms [b \<leftarrow> bios. or_else (raw_cell_slims b) \<noteq> []]"]
    by simp
qed

lemma get_cell_tree_index:
  assumes "catalog_index bios = catalog_index bios'"
  shows "get_cell_tree enum bios = get_cell_tree enum bios'"
proof -
  from assms have e: "slim_buckets (load_terms bios) = slim_buckets (load_terms bios')"
    by (simp add: catalog_index_def)
  show ?thesis unfolding get_cell_tree_def Let_def e by (rule refl)
qed

lemma catalog_index_no_slims:
  assumes "\<forall>t \<in> set (load_terms bios). cell_slims t = []"
  shows "catalog_index bios = []"
proof -
  have "[t \<leftarrow> load_terms bios. cell_slims t \<noteq> []] = []" using assms by (simp add: filter_empty_conv)
  with slim_buckets_skip [of "load_terms bios"] show ?thesis
    by (simp add: catalog_index_def slim_buckets_def)
qed

lemma setdefault_add_names:
  "name \<in> A \<Longrightarrow> \<forall>(k, v) \<in> set d. set v \<subseteq> A \<Longrightarrow>
   \<forall>(k, v) \<in> set (setdefault_add slim name d). set v \<subseteq> A"
proof (induction d)
  case Nil
  then show ?case by simp
next
  case (Cons a d)
  obtain k v where a: "a = (k, v)" by (cases a)
  from Cons.prems(2) a have v: "set v \<subseteq> A" and d: "\<forall>(k, v) \<in> set d. set v \<subseteq> A" by auto
  from Cons.IH [OF Cons.prems(1) d] have ih: "\<forall>(k, v) \<in> set (setdefault_add slim name d). set v \<subseteq> A" .
  show ?case
  proof (cases "k = slim")
    case True
    have "set (set_add name v) \<subseteq> A" using v Cons.prems(1) by simp
    with True a d show ?thesis by simp
  next
    case False
    with a v ih show ?thesis by simp
  qed
qed

lemma fold_slims_names:
  "name \<in> A \<Longrightarrow> \<forall>(k, v) \<in> set d. set v \<subseteq> A \<Longrightarrow>
   \<forall>(k, v) \<in> set (fold (\<lambda>slim d. setdefault_add slim name d) slims d). set v \<subseteq> A"
proof (induction slims arbitrary: d)
  case Nil
  then show ?case by simp
next
  case (Cons a slims)
  from setdefault_add_names [OF Cons.prems]
  have "\<forall>(k, v) \<in> set (setdefault_add a name d). set v \<subseteq> A" .
  from Cons.IH [OF Cons.prems(1) this] show ?case by simp
qed

lemma fold_terms_names:
  "\<forall>t \<in> set ts. cell_slims t \<noteq> [] \<longrightarrow> term_name t \<in> A \<Longrightarrow> \<forall>(k, v) \<in> set d. set v \<subseteq> A \<Longrightarrow>
   \<forall>(k, v) \<in> set (fold (\<lambda>t d. fold (\<lambda>slim d. setdefault_add slim (term_name t) d) (cell_slims t) d) ts d).
      set v \<subseteq> A"
proof (induction ts arbitrary: d)
  case Nil
  then show ?case by simp
next
  case (Cons t ts)
  have "\<forall>(k, v) \<in> set (fold (\<lambda>slim d. setdefault_add slim (term_name t) d) (cell_slims t) d). set v \<subseteq> A"
  proof (cases "cell_slims t = []")
    case True
    with Cons.prems(2) show ?thesis by simp
  next
    case False
    with Cons.prems(1) have "term_name t \<in> A" by simp
    from fold_slims_names [OF this Cons.prems(2)] show ?thesis .
  qed
  moreover from Cons.prems(1) have "\<forall>t \<in> set ts. cell_slims t \<noteq> [] \<longrightarrow> term_name t \<in> A" by simp
  ultimately show ?case using Cons.IH by simp
qed

lemma slim_buckets_names:
  "\<forall>(k, v) \<in> set (slim_buckets ts). set v \<subseteq> term_name ` {t \<in> set ts. cell_slims t \<noteq> []}"
proof -
  let ?A = "term_name ` {t \<in> set ts. cell_slims t \<noteq> []}"
  have 1: "\<forall>t \<in> set ts. cell_slims t \<noteq> [] \<longrightarrow> term_name t \<in> ?A" by auto
  have 2: "\<forall>(k, v) \<in> set ([] :: slim_index). set v \<subseteq> ?A" by simp
  from fold_terms_names [OF 1 2] show ?thesis
    unfolding slim_buckets_def Let_def by auto
qed

lemma members_of_names:
  "\<forall>(k, v) \<in> set sm. set v \<subseteq> A \<Longrightarrow> set (members_of sm s) \<subseteq> A"
proof -
  assume a: "\<forall>(k, v) \<in> set sm. set v \<subseteq> A"
  show ?thesis
  proof (cases "map_of sm s")
    case None
    then show ?thesis by (simp add: members_of_def)
  next
    case (Some v)
    then have "(s, v) \<in> set sm" by (rule map_of_SomeD)
    with a Some show ?thesis by (auto simp: members_of_def)
  qed
qed

lemma agg_names:
  assumes "iteration_order enum" and "\<forall>(k, v) \<in> set sm. set v \<subseteq> A"
  shows "agg n enum (linked_nodes enum sm) s = Some r \<Longrightarrow> set r \<subseteq> A"
proof (induction n arbitrary: s r)
  case 0
  then show ?case by simp
next
  case (Suc n)
  let ?nodes = "linked_nodes enum sm"
  from Suc.prems obtain nd where nd: "map_of ?nodes s = Some nd" by (auto split: option.splits)
  then have m: "members nd = sorted_set enum casefold (members_of sm s)"
    by (auto simp: map_of_linked_nodes mk_node_def split: if_splits)
  have ms: "set (members nd) \<subseteq> A"
    unfolding m using assms by (simp add: set_sorted_set members_of_names)
  from agg_step [OF assms(1) Suc.prems nd]
  have "\<forall>x \<in> set r. x \<in> set (members nd) \<or>
            (\<exists>c \<in> set (children nd). \<exists>rc. agg n enum ?nodes c = Some rc \<and> x \<in> set rc)" by blast
  with ms Suc.IH show ?case by blast
qed

lemma pack_nodes:
  "pack n (linked_nodes enum sm) aggs s = Some t \<Longrightarrow>
   \<forall>u \<in> set (tree_nodes t). \<exists>m. pack m (linked_nodes enum sm) aggs (tree_label u) = Some u"
proof (induction n arbitrary: s t)
  case 0
  then show ?case by simp
next
  case (Suc n)
  from pack_linked_label [OF Suc.prems] have top: "tree_label t = s" by simp
  from pack_children_labels [OF Suc.prems] have
    cp: "\<forall>u \<in> set (tree_children t).
            pack n (linked_nodes enum sm) aggs (tree_label u) = Some u" by simp
  have t: "\<exists>m. pack m (linked_nodes enum sm) aggs (tree_label t) = Some t"
    using Suc.prems top by blast
  have "\<forall>u \<in> set (tree_children t). \<forall>w \<in> set (tree_nodes u).
          \<exists>m. pack m (linked_nodes enum sm) aggs (tree_label w) = Some w"
    using cp Suc.IH by blast
  with t show ?case
    by (subst tree_nodes_unfold) auto
qed

lemma output_names:
  assumes "iteration_order enum"
  shows "\<exists>r. get_cell_tree enum bios = Some r \<and>
           (\<forall>u \<in> set (tree_nodes (tree r)).
              \<forall>x \<in> set (tree_members u) \<union> set (tree_aggregate_members u).
                \<exists>t \<in> set (load_terms bios). term_name t = x \<and> cell_slims t \<noteq> [])"
proof -
  let ?sm = "catalog_index bios"
  let ?nodes = "linked_nodes enum ?sm"
  let ?N = "length (map fst ?sm)"
  let ?A = "term_name ` {t \<in> set (load_terms bios). cell_slims t \<noteq> []}"
  have bn: "\<forall>(k, v) \<in> set ?sm. set v \<subseteq> ?A"
    unfolding catalog_index_def by (rule slim_buckets_names)
  from get_cell_tree_unfold [OF assms, of bios] obtain aggs cs where
    f: "map fst aggs = map fst ?sm"
    and m: "\<forall>s \<in> fst ` set ?sm. map_of aggs s = agg ?N enum ?nodes s \<and> map_of aggs s \<noteq> None"
    and p: "those (map (pack ?N ?nodes aggs)
                  (sort_key casefold [s \<leftarrow> map fst ?sm. choose_parent enum ?sm s = None])) = Some cs"
    and g: "get_cell_tree enum bios =
             Some \<lparr>ok = True,
                   tree = Tree ''SLIM::ROOT'' ''Cell types'' []
                            (sorted_set enum casefold (set_of (concat (map snd aggs)))) cs\<rparr>"
    by blast
  let ?t = "Tree ''SLIM::ROOT'' ''Cell types'' []
              (sorted_set enum casefold (set_of (concat (map snd aggs)))) cs"
  have agg_in: "set r \<subseteq> ?A" if "agg ?N enum ?nodes s = Some r" for s r
    using agg_names [OF assms bn that] .
  have rootagg: "set (sorted_set enum casefold (set_of (concat (map snd aggs)))) \<subseteq> ?A"
  proof -
    have each: "set r \<subseteq> ?A" if "(s, r) \<in> set aggs" for s r
    proof -
      have "distinct (map fst aggs)" unfolding f by (rule distinct_catalog_index)
      with that have 1: "map_of aggs s = Some r" by simp
      from that have "s \<in> set (map fst aggs)" by force
      then have "s \<in> fst ` set ?sm" unfolding f by simp
      with m 1 have "agg ?N enum ?nodes s = Some r" by auto
      then show ?thesis by (rule agg_in)
    qed
    have "\<Union> (set ` snd ` set aggs) \<subseteq> ?A"
    proof
      fix x assume "x \<in> \<Union> (set ` snd ` set aggs)"
      then obtain s r where "(s, r) \<in> set aggs" "x \<in> set r" by auto
      with each show "x \<in> ?A" by blast
    qed
    then show ?thesis using assms by (simp add: set_sorted_set)
  qed
  from p have "map (pack ?N ?nodes aggs)
                 (sort_key casefold [s \<leftarrow> map fst ?sm. choose_parent enum ?sm s = None]) = map Some cs"
    by (simp add: those_eq_Some)
  from pack_list [OF this] have
    cp: "\<forall>u \<in> set cs. pack ?N ?nodes aggs (tree_label u) = Some u" by auto
  have sub: "set (tree_members w) \<union> set (tree_aggregate_members w) \<subseteq> ?A"
    if u: "u \<in> set cs" and w: "w \<in> set (tree_nodes u)" for u w
  proof -
    from cp u have "pack ?N ?nodes aggs (tree_label u) = Some u" by simp
    from pack_nodes [OF this] w obtain k where "pack k ?nodes aggs (tree_label w) = Some w" by blast
    from pack_linked_label [OF this] have
      key: "tree_label w \<in> fst ` set ?sm"
      and mem: "tree_members w = sorted_set enum casefold (members_of ?sm (tree_label w))"
      and am: "map_of aggs (tree_label w) = Some (tree_aggregate_members w)" by auto
    have "set (tree_members w) \<subseteq> ?A"
      unfolding mem using assms bn by (simp add: set_sorted_set members_of_names)
    moreover from m key am have "agg ?N enum ?nodes (tree_label w) = Some (tree_aggregate_members w)"
      by auto
    then have "set (tree_aggregate_members w) \<subseteq> ?A" by (rule agg_in)
    ultimately show ?thesis by simp
  qed
  have "\<forall>u \<in> set (tree_nodes ?t). set (tree_members u) \<union> set (tree_aggregate_members u) \<subseteq> ?A"
    using rootagg sub by auto
  then have "\<forall>u \<in> set (tree_nodes ?t).
              \<forall>x \<in> set (tree_members u) \<union> set (tree_aggregate_members u).
                \<exists>t \<in> set (load_terms bios). term_name t = x \<and> cell_slims t \<noteq> []"
    by blast
  with g show ?thesis
    by (intro exI [of _ "\<lparr>ok = True, tree = ?t\<rparr>"]) simp
qed

text \<open>
  Claim C10 says that the name of a record that passes the filter and has no slims never
  appears in a members or aggregate members list. In the catalog below the first record
  has no slims and the second has the same name and the slim \<open>x\<close>: the name is a member
  of \<open>x\<close>.
\<close>

theorem shared_name_appears:
  "load_terms shared_name_catalog =
     [\<lparr>term_name = ''A'', cell_slims = []\<rparr>, \<lparr>term_name = ''A'', cell_slims = [''x'']\<rparr>] \<and>
   get_cell_tree (\<lambda>s. s) shared_name_catalog =
     Some \<lparr>ok = True, tree = Tree ''SLIM::ROOT'' ''Cell types'' [] [''A'']
             [Tree ''SLIM::x'' ''x'' [''A''] [''A''] []]\<rparr>"
  by code_simp

text \<open>
  Claim C10, amended. A record that passes the filter but has an empty list of slims
  contributes to no slim bucket: the index, and with it the output tree, is the one of the
  catalog without such records. Every name in a members or aggregate members list of the
  output is the name of a loaded record that has a slim; so the name of a record without
  slims appears in no node, unless another loaded record with the same name has a slim. A
  catalog whose loaded records all lack slims yields the tree of the empty catalog.
\<close>

theorem empty_slims_records_invisible:
  assumes "iteration_order enum"
  shows "catalog_index bios = catalog_index [b \<leftarrow> bios. or_else (raw_cell_slims b) \<noteq> []] \<and>
         get_cell_tree enum bios = get_cell_tree enum [b \<leftarrow> bios. or_else (raw_cell_slims b) \<noteq> []] \<and>
         (\<exists>r. get_cell_tree enum bios = Some r \<and>
            (\<forall>u \<in> set (tree_nodes (tree r)).
               \<forall>x \<in> set (tree_members u) \<union> set (tree_aggregate_members u).
                 \<exists>t \<in> set (load_terms bios). term_name t = x \<and> cell_slims t \<noteq> []) \<and>
            (\<forall>t \<in> set (load_terms bios).
               cell_slims t = [] \<and>
               (\<forall>t' \<in> set (load_terms bios). term_name t' = term_name t \<longrightarrow> cell_slims t' = [])
               \<longrightarrow> (\<forall>u \<in> set (tree_nodes (tree r)).
                      term_name t \<notin> set (tree_members u) \<union> set (tree_aggregate_members u)))) \<and>
         ((\<forall>t \<in> set (load_terms bios). cell_slims t = []) \<longrightarrow>
            get_cell_tree enum bios = get_cell_tree enum [])"
proof -
  have 1: "catalog_index bios = catalog_index [b \<leftarrow> bios. or_else (raw_cell_slims b) \<noteq> []]"
    by (rule catalog_index_skip)
  then have 2: "get_cell_tree enum bios =
                get_cell_tree enum [b \<leftarrow> bios. or_else (raw_cell_slims b) \<noteq> []]"
    by (rule get_cell_tree_index)
  have 4: "get_cell_tree enum bios = get_cell_tree enum []"
    if "\<forall>t \<in> set (load_terms bios). cell_slims t = []"
  proof -
    from catalog_index_no_slims [OF that] have "catalog_index bios = catalog_index []"
      by (simp add: catalog_index_def slim_buckets_def)
    then show ?thesis by (rule get_cell_tree_index)
  qed
  from output_names [OF assms, of bios] obtain r where
    g: "get_cell_tree enum bios = Some r"
    and n: "\<forall>u \<in> set (tree_nodes (tree r)).
               \<forall>x \<in> set (tree_members u) \<union> set (tree_aggregate_members u).
                 \<exists>t \<in> set (load_terms bios). term_name t = x \<and> cell_slims t \<noteq> []"
    by blast
  have 3: "\<forall>t \<in> set (load_terms bios).
             cell_slims t = [] \<and>
             (\<forall>t' \<in> set (load_terms bios). term_name t' = term_name t \<longrightarrow> cell_slims t' = [])
             \<longrightarrow> (\<forall>u \<in> set (tree_nodes (tree r)).
                    term_name t \<notin> set (tree_members u) \<union> set (tree_aggregate_members u))"
  proof (intro ballI impI notI)
    fix t u
    assume t: "t \<in> set (load_terms bios)"
      and e: "cell_slims t = [] \<and>
              (\<forall>t' \<in> set (load_terms bios). term_name t' = term_name t \<longrightarrow> cell_slims t' = [])"
      and u: "u \<in> set (tree_nodes (tree r))"
      and x: "term_name t \<in> set (tree_members u) \<union> set (tree_aggregate_members u)"
    from n u x obtain t' where "t' \<in> set (load_terms bios)" "term_name t' = term_name t"
      "cell_slims t' \<noteq> []" by blast
    with e show False by blast
  qed
  from 1 2 g n 3 4 show ?thesis by blast
qed

theorem empty_slims_records_invisible_witness:
  "iteration_order (\<lambda>s. s) \<and>
   map cell_slims (load_terms no_slims_catalog) = [[], []] \<and>
   get_cell_tree (\<lambda>s. s) no_slims_catalog = get_cell_tree (\<lambda>s. s) [] \<and>
   get_cell_tree (\<lambda>s. s) padded_chain_catalog =
     get_cell_tree (\<lambda>s. s) [b \<leftarrow> padded_chain_catalog. or_else (raw_cell_slims b) \<noteq> []]"
proof -
  have m: "map cell_slims (load_terms no_slims_catalog) = [[], []]" by code_simp
  have h: "\<forall>t \<in> set (load_terms no_slims_catalog). cell_slims t = []"
  proof
    fix t assume "t \<in> set (load_terms no_slims_catalog)"
    then have "cell_slims t \<in> set (map cell_slims (load_terms no_slims_catalog))" by simp
    then show "cell_slims t = []" unfolding m by simp
  qed
  from empty_slims_records_invisible [OF iteration_order_id, of no_slims_catalog]
    empty_slims_records_invisible [OF iteration_order_id, of padded_chain_catalog]
    h m iteration_order_id
  show ?thesis by blast
qed

section \<open>Determinism\<close>

lemma filter_eq_replicate: "filter (\<lambda>x. x = a) zs = replicate (count (mset zs) a) a"
  by (induction zs) auto

lemma sort_key_perm:
  assumes "mset ys = mset xs" and "inj_on k (set xs)"
  shows "sort_key k ys = sort_key k xs"
proof (rule properties_for_sort_key [symmetric])
  show "mset (sort_key k ys) = mset xs" using assms(1) by simp
  show "sorted (map k (sort_key k ys))" by simp
  fix a assume "a \<in> set (sort_key k ys)"
  then have a: "a \<in> set xs" using assms(1) by (metis set_sort mset_eq_setD)
  have sx: "set (sort_key k ys) = set xs" using assms(1) by (metis set_sort mset_eq_setD)
  have 1: "filter (\<lambda>x. k a = k x) (sort_key k ys) = filter (\<lambda>x. x = a) (sort_key k ys)"
    by (rule filter_cong) (use a sx assms(2) in \<open>auto simp: inj_on_def\<close>)
  have 2: "filter (\<lambda>x. k a = k x) xs = filter (\<lambda>x. x = a) xs"
    by (rule filter_cong) (use a assms(2) in \<open>auto simp: inj_on_def\<close>)
  have "count (mset (sort_key k ys)) a = count (mset xs) a" using assms(1) by simp
  then show "filter (\<lambda>x. k a = k x) (sort_key k ys) = filter (\<lambda>x. k a = k x) xs"
    unfolding 1 2 filter_eq_replicate by simp
qed

lemma sorted_set_canonical:
  assumes "iteration_order enum" and "inj_on k (set xs)"
  shows "sorted_set enum k xs = sort_key k xs"
  unfolding sorted_set_def
  using iteration_order_mset [OF assms(1)] assms(2) by (rule sort_key_perm)

lemma sorted_set_independent:
  assumes "iteration_order e1" and "iteration_order e2" and "inj_on k (set xs)"
  shows "sorted_set e1 k xs = sorted_set e2 k xs"
  using sorted_set_canonical [OF assms(1,3)] sorted_set_canonical [OF assms(2,3)] by simp

lemma minimal_of_keys: "set (minimal_of sm (candidates sm a)) \<subseteq> fst ` set sm"
  unfolding set_minimal_of set_candidates by auto

lemma inj_on_parent_key:
  "inj_on casefold K \<Longrightarrow> inj_on (parent_key sm) K"
  by (auto simp: inj_on_def parent_key_def)

lemma choose_parent_independent:
  assumes "iteration_order e1" and "iteration_order e2" and "inj_on casefold (fst ` set sm)"
  shows "choose_parent e1 sm a = choose_parent e2 sm a"
proof -
  have "inj_on (parent_key sm) (set (minimal_of sm (candidates sm a)))"
    using inj_on_parent_key [OF assms(3)] minimal_of_keys by (rule inj_on_subset)
  from sorted_set_independent [OF assms(1,2) this] show ?thesis
    by (simp add: choose_parent_def Let_def)
qed

lemma parents_of_independent:
  assumes "iteration_order e1" and "iteration_order e2" and "inj_on casefold (fst ` set sm)"
  shows "parents_of e1 sm = parents_of e2 sm"
  unfolding parents_of_def using choose_parent_independent [OF assms] by simp

lemma values_in_names: "\<forall>(k, v) \<in> set sm. set v \<subseteq> \<Union> (set ` snd ` set sm)"
  by force

lemma mk_node_independent:
  assumes "iteration_order e1" and "iteration_order e2"
    and "inj_on casefold (\<Union> (set ` snd ` set sm))"
  shows "mk_node e1 sm s = mk_node e2 sm s"
proof -
  have "set (members_of sm s) \<subseteq> \<Union> (set ` snd ` set sm)"
    using values_in_names by (rule members_of_names)
  with assms(3) have "inj_on casefold (set (members_of sm s))" by (rule inj_on_subset)
  from sorted_set_independent [OF assms(1,2) this] show ?thesis by (simp add: mk_node_def)
qed

lemma linked_nodes_independent:
  assumes "iteration_order e1" and "iteration_order e2"
    and "inj_on casefold (fst ` set sm)" and "inj_on casefold (\<Union> (set ` snd ` set sm))"
  shows "linked_nodes e1 sm = linked_nodes e2 sm"
  unfolding linked_nodes_def
  using mk_node_independent [OF assms(1,2,4)] parents_of_independent [OF assms(1,2,3)] by simp

lemma agg_independent:
  assumes "iteration_order e1" and "iteration_order e2"
    and "inj_on casefold (\<Union> (set ` snd ` set sm))"
  shows "agg n e1 (linked_nodes e2 sm) s = agg n e2 (linked_nodes e2 sm) s"
proof (induction n arbitrary: s)
  case 0
  then show ?case by simp
next
  case (Suc n)
  let ?nodes = "linked_nodes e2 sm"
  let ?A = "\<Union> (set ` snd ` set sm)"
  show ?case
  proof (cases "map_of ?nodes s")
    case None
    then show ?thesis by simp
  next
    case (Some nd)
    have "map (agg n e1 ?nodes) (children nd) = map (agg n e2 ?nodes) (children nd)"
      by (rule map_cong [OF refl]) (rule Suc.IH)
    then have eq: "those (map (agg n e1 ?nodes) (children nd)) =
                   those (map (agg n e2 ?nodes) (children nd))"
      by (rule arg_cong)
    show ?thesis
    proof (cases "those (map (agg n e2 ?nodes) (children nd))")
      case None
      with Some eq show ?thesis by simp
    next
      case b: (Some below)
      let ?X = "fold (\<lambda>a seen. set_update seen a) below (set_of (members nd))"
      from Some have m: "members nd = sorted_set e2 casefold (members_of sm s)"
        by (auto simp: map_of_linked_nodes mk_node_def split: if_splits)
      have ms: "set (members nd) \<subseteq> ?A"
        unfolding m using assms(2) values_in_names [of sm]
        by (simp add: set_sorted_set members_of_names)
      have bs: "set rc \<subseteq> ?A" if "rc \<in> set below" for rc
      proof -
        from b have "map (agg n e2 ?nodes) (children nd) = map Some below"
          by (simp add: those_eq_Some)
        with that have "Some rc \<in> set (map (agg n e2 ?nodes) (children nd))" by simp
        then obtain c where "agg n e2 ?nodes c = Some rc" by auto
        from agg_names [OF assms(2) values_in_names this] show ?thesis .
      qed
      have "set ?X \<subseteq> ?A" unfolding set_fold_update using ms bs by auto
      with assms(3) have "inj_on casefold (set ?X)" by (rule inj_on_subset)
      from sorted_set_independent [OF assms(1,2) this] Some b eq show ?thesis by simp
    qed
  qed
qed

lemma alist_eq:
  "map fst xs = map fst ys \<Longrightarrow> distinct (map fst xs) \<Longrightarrow>
   \<forall>k \<in> set (map fst xs). map_of xs k = map_of ys k \<Longrightarrow> xs = ys"
proof (induction xs arbitrary: ys)
  case Nil
  then show ?case by simp
next
  case (Cons x xs)
  from Cons.prems(1) obtain y ys' where ys: "ys = y # ys'" by (cases ys) auto
  with Cons.prems(1) have f: "fst x = fst y" and r: "map fst xs = map fst ys'" by auto
  from Cons.prems(3) ys f have "snd x = snd y" by (cases x, cases y) (auto split: if_splits)
  with f have xy: "x = y" by (simp add: prod_eq_iff)
  have d: "distinct (map fst xs)" using Cons.prems(2) by simp
  have "\<forall>k \<in> set (map fst xs). map_of xs k = map_of ys' k"
  proof
    fix k assume k: "k \<in> set (map fst xs)"
    with Cons.prems(2) have "k \<noteq> fst x" by force
    with Cons.prems(3) k ys f show "map_of xs k = map_of ys' k"
      by (cases x, cases y) (auto split: if_splits)
  qed
  from Cons.IH [OF r d this] xy ys show ?case by simp
qed

text \<open>
  Claim C2 says that no part of the output depends on the order in which sets are
  iterated. \<open>sorted\<close> is stable and its keys fold case, so two elements of a set that
  differ only in case come out in the order of iteration. In the catalog below the slims
  \<open>y\<close> and \<open>Y\<close> have the same members and are both minimal candidates of \<open>x\<close>: one
  iteration order makes \<open>y\<close> the parent of \<open>x\<close>, the reverse order makes it \<open>Y\<close>, and
  the two output trees differ.
\<close>

theorem order_dependent_parent:
  "iteration_order (\<lambda>s. s) \<and> iteration_order rev \<and>
   parents_get (parents_of (\<lambda>s. s) (catalog_index case_tie_catalog)) ''x'' = Some ''y'' \<and>
   parents_get (parents_of rev (catalog_index case_tie_catalog)) ''x'' = Some ''Y'' \<and>
   get_cell_tree (\<lambda>s. s) case_tie_catalog \<noteq> get_cell_tree rev case_tie_catalog"
proof -
  have 1: "parents_get (parents_of (\<lambda>s. s) (catalog_index case_tie_catalog)) ''x'' = Some ''y''"
    by code_simp
  have 2: "parents_get (parents_of rev (catalog_index case_tie_catalog)) ''x'' = Some ''Y''"
    by code_simp
  have 3: "get_cell_tree (\<lambda>s. s) case_tie_catalog =
    Some \<lparr>ok = True, tree = Tree ''SLIM::ROOT'' ''Cell types'' [] [''A'', ''B'']
        [Tree ''SLIM::y'' ''y'' [''A'', ''B''] [''A'', ''B'']
          [Tree ''SLIM::x'' ''x'' [''A''] [''A''] []],
         Tree ''SLIM::Y'' ''Y'' [''A'', ''B''] [''A'', ''B''] []]\<rparr>"
    by code_simp
  have 4: "get_cell_tree rev case_tie_catalog =
    Some \<lparr>ok = True, tree = Tree ''SLIM::ROOT'' ''Cell types'' [] [''A'', ''B'']
        [Tree ''SLIM::y'' ''y'' [''A'', ''B''] [''A'', ''B''] [],
         Tree ''SLIM::Y'' ''Y'' [''A'', ''B''] [''A'', ''B'']
          [Tree ''SLIM::x'' ''x'' [''A''] [''A''] []]]\<rparr>"
    by code_simp
  have 5: "iteration_order rev" by (simp add: iteration_order_def)
  from 1 2 5 iteration_order_id show ?thesis unfolding 3 4 by simp
qed

text \<open>
  Claim C2, amended. For a catalog in which no two slim labels and no two term names are
  equal after case folding, the output tree is the same for every order in which sets are
  iterated: parent choices, the order of children and the order of member lists do not
  depend on it.
\<close>

theorem deterministic_without_case_ties:
  assumes "iteration_order e1" and "iteration_order e2" and "case_distinct bios"
  shows "get_cell_tree e1 bios = get_cell_tree e2 bios"
proof -
  let ?sm = "catalog_index bios"
  let ?A = "\<Union> (set ` snd ` set ?sm)"
  let ?N = "length (map fst ?sm)"
  let ?nodes = "linked_nodes e2 ?sm"
  let ?roots = "\<lambda>e. sort_key casefold [s \<leftarrow> map fst ?sm. choose_parent e ?sm s = None]"
  from assms(3) have "inj_on casefold (set (map fst ?sm))"
    unfolding case_distinct_def distinct_map by blast
  then have ik: "inj_on casefold (fst ` set ?sm)" by simp
  from assms(3) have "inj_on casefold (set (remdups (concat (map snd ?sm))))"
    unfolding case_distinct_def distinct_map by blast
  moreover have "set (remdups (concat (map snd ?sm))) = ?A" by auto
  ultimately have ia: "inj_on casefold ?A" by simp
  have ln: "linked_nodes e1 ?sm = ?nodes"
    using assms(1,2) ik ia by (rule linked_nodes_independent)
  have rt: "?roots e1 = ?roots e2"
    using choose_parent_independent [OF assms(1,2) ik] by simp
  from get_cell_tree_unfold [OF assms(1), of bios] obtain aggs1 cs1 where
    f1: "map fst aggs1 = map fst ?sm"
    and m1: "\<forall>s \<in> fst ` set ?sm. map_of aggs1 s = agg ?N e1 (linked_nodes e1 ?sm) s \<and>
                                   map_of aggs1 s \<noteq> None"
    and p1: "those (map (pack ?N (linked_nodes e1 ?sm) aggs1) (?roots e1)) = Some cs1"
    and g1: "get_cell_tree e1 bios =
             Some \<lparr>ok = True,
                   tree = Tree ''SLIM::ROOT'' ''Cell types'' []
                            (sorted_set e1 casefold (set_of (concat (map snd aggs1)))) cs1\<rparr>"
    by blast
  from get_cell_tree_unfold [OF assms(2), of bios] obtain aggs2 cs2 where
    f2: "map fst aggs2 = map fst ?sm"
    and m2: "\<forall>s \<in> fst ` set ?sm. map_of aggs2 s = agg ?N e2 ?nodes s \<and> map_of aggs2 s \<noteq> None"
    and p2: "those (map (pack ?N ?nodes aggs2) (?roots e2)) = Some cs2"
    and g2: "get_cell_tree e2 bios =
             Some \<lparr>ok = True,
                   tree = Tree ''SLIM::ROOT'' ''Cell types'' []
                            (sorted_set e2 casefold (set_of (concat (map snd aggs2)))) cs2\<rparr>"
    by blast
  have ag: "aggs1 = aggs2"
  proof (rule alist_eq)
    show "map fst aggs1 = map fst aggs2" using f1 f2 by simp
    show "distinct (map fst aggs1)" unfolding f1 by (rule distinct_catalog_index)
    show "\<forall>k \<in> set (map fst aggs1). map_of aggs1 k = map_of aggs2 k"
    proof
      fix k assume "k \<in> set (map fst aggs1)"
      then have k: "k \<in> fst ` set ?sm" unfolding f1 by simp
      from m1 k have x1: "map_of aggs1 k = agg ?N e1 ?nodes k" unfolding ln by blast
      from m2 k have x2: "map_of aggs2 k = agg ?N e2 ?nodes k" by blast
      have "agg ?N e1 ?nodes k = agg ?N e2 ?nodes k" using assms(1,2) ia by (rule agg_independent)
      with x1 x2 show "map_of aggs1 k = map_of aggs2 k" by simp
    qed
  qed
  from p1 have "those (map (pack ?N ?nodes aggs2) (?roots e2)) = Some cs1"
    unfolding ln ag rt .
  with p2 have cs: "cs1 = cs2" by simp
  have "set (set_of (concat (map snd aggs2))) \<subseteq> ?A"
  proof
    fix x assume "x \<in> set (set_of (concat (map snd aggs2)))"
    then obtain s r where sr: "(s, r) \<in> set aggs2" and x: "x \<in> set r" by auto
    have "distinct (map fst aggs2)" unfolding f2 by (rule distinct_catalog_index)
    with sr have 1: "map_of aggs2 s = Some r" by simp
    from sr have "s \<in> set (map fst aggs2)" by force
    then have sk: "s \<in> fst ` set ?sm" unfolding f2 by simp
    from m2 sk have "map_of aggs2 s = agg ?N e2 ?nodes s" by blast
    with 1 have "agg ?N e2 ?nodes s = Some r" by simp
    from agg_names [OF assms(2) values_in_names this] x show "x \<in> ?A" by blast
  qed
  with ia have "inj_on casefold (set (set_of (concat (map snd aggs2))))" by (rule inj_on_subset)
  from sorted_set_independent [OF assms(1,2) this]
  have "sorted_set e1 casefold (set_of (concat (map snd aggs1))) =
        sorted_set e2 casefold (set_of (concat (map snd aggs2)))"
    unfolding ag .
  with g1 g2 cs show ?thesis by simp
qed

theorem deterministic_without_case_ties_witness:
  "iteration_order (\<lambda>s. s) \<and> iteration_order rev \<and> case_distinct tie_catalog \<and>
   get_cell_tree (\<lambda>s. s) tie_catalog = get_cell_tree rev tie_catalog"
proof -
  have r: "iteration_order rev" by (simp add: iteration_order_def)
  have c: "case_distinct tie_catalog" by code_simp
  from deterministic_without_case_ties [OF iteration_order_id r c] iteration_order_id r c
  show ?thesis by blast
qed

section \<open>The forest\<close>

text \<open>
  The parent assignment is acyclic and gives every slim at most one parent. When no slim
  has the empty label, every slim is the label of exactly one node of the output tree.
\<close>

lemma parent_rel_trancl_proper:
  assumes "iteration_order enum" and "(a, b) \<in> (parent_rel enum sm)\<^sup>+"
  shows "proper_subset (members_of sm a) (members_of sm b)"
  using assms(2)
proof (induction rule: trancl_induct)
  case (base y)
  then show ?case using assms(1) by (rule parent_proper [rotated])
next
  case (step y z)
  from parent_proper [OF assms(1) step.hyps(2)] step.IH show ?case
    by (rule proper_subset_trans [rotated])
qed

lemma parent_rel_acyclic: "iteration_order enum \<Longrightarrow> acyclic (parent_rel enum sm)"
  unfolding acyclic_def using parent_rel_trancl_proper by fastforce

lemma tree_nodes_trans:
  "u \<in> set (tree_nodes t) \<Longrightarrow> w \<in> set (tree_nodes u) \<Longrightarrow> w \<in> set (tree_nodes t)"
proof (induction t rule: tree_nodes.induct)
  case (1 i l m a cs)
  show ?case
  proof (cases "u = Tree i l m a cs")
    case True
    with "1.prems" show ?thesis by simp
  next
    case False
    with "1.prems"(1) obtain c where c: "c \<in> set cs" and u: "u \<in> set (tree_nodes c)" by auto
    from "1.IH" [OF c u "1.prems"(2)] c show ?thesis by auto
  qed
qed

lemma child_in_tree_nodes: "c \<in> set (tree_children u) \<Longrightarrow> c \<in> set (tree_nodes u)"
proof -
  assume c: "c \<in> set (tree_children u)"
  have "c \<in> set (tree_nodes c)" by (subst tree_nodes_unfold) simp
  with c show ?thesis by (subst tree_nodes_unfold) auto
qed

lemma every_slim_in_tree:
  assumes "iteration_order enum" and "[] \<notin> fst ` set (catalog_index bios)"
  shows "\<exists>r. get_cell_tree enum bios = Some r \<and>
           set (map tree_label (slim_nodes (tree r))) = fst ` set (catalog_index bios) \<and>
           distinct (map tree_label (slim_nodes (tree r)))"
proof -
  let ?sm = "catalog_index bios"
  let ?nodes = "linked_nodes enum ?sm"
  let ?N = "length (map fst ?sm)"
  let ?roots = "[s \<leftarrow> map fst ?sm. choose_parent enum ?sm s = None]"
  from get_cell_tree_unfold [OF assms(1), of bios] obtain aggs cs where
    m: "\<forall>s \<in> fst ` set ?sm. map_of aggs s = agg ?N enum ?nodes s \<and> map_of aggs s \<noteq> None"
    and p: "those (map (pack ?N ?nodes aggs) (sort_key casefold ?roots)) = Some cs"
    and g: "get_cell_tree enum bios =
             Some \<lparr>ok = True,
                   tree = Tree ''SLIM::ROOT'' ''Cell types'' []
                            (sorted_set enum casefold (set_of (concat (map snd aggs)))) cs\<rparr>"
    by blast
  let ?t = "Tree ''SLIM::ROOT'' ''Cell types'' []
              (sorted_set enum casefold (set_of (concat (map snd aggs)))) cs"
  let ?F = "concat (map tree_nodes cs)"
  from m have m': "\<forall>s \<in> fst ` set ?sm. map_of aggs s = agg ?N enum ?nodes s" by blast
  from output_forest [OF assms(1) m' p] have d: "distinct (map tree_label ?F)" by simp
  from p have "map (pack ?N ?nodes aggs) (sort_key casefold ?roots) = map Some cs"
    by (simp add: those_eq_Some)
  from pack_list [OF this] have
    cl: "map tree_label cs = sort_key casefold ?roots"
    and cp: "\<forall>u \<in> set cs. pack ?N ?nodes aggs (tree_label u) = Some u" by auto
  have node: "\<exists>k. pack k ?nodes aggs (tree_label w) = Some w" if "w \<in> set ?F" for w
  proof -
    from that obtain u where u: "u \<in> set cs" and w: "w \<in> set (tree_nodes u)" by auto
    from cp u have "pack ?N ?nodes aggs (tree_label u) = Some u" by simp
    from pack_nodes [OF this] w show ?thesis by blast
  qed
  have sub: "set (map tree_label ?F) \<subseteq> fst ` set ?sm"
  proof
    fix l assume "l \<in> set (map tree_label ?F)"
    then obtain w where w: "w \<in> set ?F" and l: "l = tree_label w" by auto
    from node [OF w] obtain k where "pack k ?nodes aggs (tree_label w) = Some w" by blast
    from pack_linked_label [OF this] l show "l \<in> fst ` set ?sm" by simp
  qed
  have top: "u \<in> set ?F" if "u \<in> set cs" for u
  proof -
    have "u \<in> set (tree_nodes u)" by (subst tree_nodes_unfold) simp
    with that show ?thesis by auto
  qed
  have closed: "v \<in> set ?F" if "u \<in> set ?F" and "v \<in> set (tree_children u)" for u v
  proof -
    from that(1) obtain c where c: "c \<in> set cs" and u: "u \<in> set (tree_nodes c)" by auto
    from tree_nodes_trans [OF u child_in_tree_nodes [OF that(2)]] c show ?thesis by auto
  qed
  have sup: "s \<in> fst ` set ?sm \<longrightarrow> s \<in> set (map tree_label ?F)" for s
  proof (induction s rule: measure_induct_rule [where f = "\<lambda>s. ?N - rank ?sm s"])
    case (less s)
    show ?case
    proof
      assume k: "s \<in> fst ` set ?sm"
      show "s \<in> set (map tree_label ?F)"
      proof (cases "choose_parent enum ?sm s")
        case None
        with k have "s \<in> set (sort_key casefold ?roots)" by simp
        then have "s \<in> set (map tree_label cs)" unfolding cl .
        then obtain u where "u \<in> set cs" "tree_label u = s" by auto
        with top show ?thesis by force
      next
        case (Some q)
        from choose_parent_Some [OF assms(1) Some] have "q \<in> set (minimal_supersets ?sm s)" by simp
        from minimal_supersets_strict [OF this] have qk: "q \<in> fst ` set ?sm"
          and ps: "proper_subset (members_of ?sm s) (members_of ?sm q)" by auto
        have "rank ?sm s < rank ?sm q" using k ps by (rule rank_less)
        moreover have "rank ?sm q < ?N" using rank_bound [OF qk] by simp
        ultimately have "?N - rank ?sm q < ?N - rank ?sm s" by simp
        from less.IH [OF this] qk obtain u where u: "u \<in> set ?F" and lu: "tree_label u = q"
          by auto
        from node [OF u] lu obtain j where pj: "pack j ?nodes aggs q = Some u" by auto
        then obtain j' where j: "j = Suc j'" by (cases j) auto
        from pack_children_labels [OF pj [unfolded j]] have
          "map tree_label (tree_children u) = sort_key casefold (children_in (parents_of enum ?sm) q)"
          by simp
        moreover have "s \<in> set (children_in (parents_of enum ?sm) q)"
        proof -
          from qk assms(2) have "q \<noteq> []" by blast
          moreover from ps have "s \<noteq> q" by auto
          ultimately show ?thesis using k Some by (simp add: children_in_parents_of)
        qed
        ultimately have "s \<in> set (map tree_label (tree_children u))" by simp
        then obtain v where v: "v \<in> set (tree_children u)" and lv: "tree_label v = s" by auto
        from closed [OF u v] lv show ?thesis by force
      qed
    qed
  qed
  have "set (map tree_label ?F) = fst ` set ?sm" using sub sup by blast
  with g d show ?thesis
    by (intro exI [of _ "\<lparr>ok = True, tree = ?t\<rparr>"]) (simp add: slim_nodes_def)
qed

end
